theory Spec2Isabelle
  imports Complex_Main
begin

section \<open>Arrays: shapes, row-major indices, element access\<close>

text \<open>
  \<^verbatim>\<open>pool.cc\<close> works on \<^verbatim>\<open>xchainer::Array\<close>, of which it uses the shape and the
  elements in logical (row-major) order only. An array is a record of both; the element
  type is a parameter of the model (the dtype \<^verbatim>\<open>T\<close> that \<^verbatim>\<open>VisitDtype\<close> dispatches on).
  Dimensions and indices are natural numbers; window coordinates, which can fall into the
  padding, are integers.
\<close>

type_synonym Shape = "nat list"

record 'a Array =
  shape :: Shape
  elems :: "'a list"

text \<open>The flat position of a multi-index in row-major order, and its inverse.\<close>

fun ravel :: "Shape \<Rightarrow> nat list \<Rightarrow> nat" where
  "ravel (d # ds) (j # js) = j * prod_list ds + ravel ds js"
| "ravel _ _ = 0"

fun unravel :: "Shape \<Rightarrow> nat \<Rightarrow> nat list" where
  "unravel [] j = []"
| "unravel (d # ds) j = (j div prod_list ds) # unravel ds (j mod prod_list ds)"

definition in_shape :: "Shape \<Rightarrow> nat list \<Rightarrow> bool" where
  "in_shape sh idx = list_all2 (<) idx sh"

text \<open>All multi-indices of a shape, in scan (row-major) order.\<close>

definition all_indices :: "Shape \<Rightarrow> nat list list" where
  "all_indices sh = map (unravel sh) [0..<prod_list sh]"

definition tabulate :: "Shape \<Rightarrow> (nat list \<Rightarrow> 'a) \<Rightarrow> 'a Array" where
  "tabulate sh f = \<lparr>shape = sh, elems = map f (all_indices sh)\<rparr>"

definition elem_at :: "'a Array \<Rightarrow> nat list \<Rightarrow> 'a" where
  "elem_at a idx = elems a ! ravel (shape a) idx"

definition GetTotalSize :: "'a Array \<Rightarrow> nat" where
  "GetTotalSize a = prod_list (shape a)"

definition ndim :: "'a Array \<Rightarrow> nat" where
  "ndim a = length (shape a)"

text \<open>An array whose element list has the length its shape announces.\<close>

definition well_formed :: "'a Array \<Rightarrow> bool" where
  "well_formed a = (length (elems a) = prod_list (shape a))"

section \<open>The array routines \<^verbatim>\<open>pool.cc\<close> calls\<close>

text \<open>
  The routines of this section are code of the repository outside \<^verbatim>\<open>pool.cc\<close>
  (\<^verbatim>\<open>array.h\<close>, \<^verbatim>\<open>routines/*.h\<close>, \<^verbatim>\<open>native/im2col.h\<close>, \<^verbatim>\<open>native/col2im.h\<close>,
  \<^verbatim>\<open>native/tensor_dot.h\<close>, \<^verbatim>\<open>native/elementwise.h\<close>). Each is modelled from what the
  specification says of it.
\<close>

text \<open>Modelled from the spec: \<^verbatim>\<open>Array::Reshape\<close> (section 6, "reshape ... view operations"):
  the same elements in the same logical order under a new shape of the same total size.\<close>

definition Reshape :: "'a Array \<Rightarrow> Shape \<Rightarrow> 'a Array" where
  "Reshape a sh = a\<lparr>shape := sh\<rparr>"

fun index_of :: "nat list \<Rightarrow> nat \<Rightarrow> nat" where
  "index_of [] m = 0"
| "index_of (a # as) m = (if a = m then 0 else Suc (index_of as m))"

text \<open>Modelled from the spec: \<^verbatim>\<open>Array::Transpose\<close> (section 6, "transpose"; section 4.2,
  "permute axes"): axis \<open>j\<close> of the result is axis \<open>axes ! j\<close> of the argument.\<close>

definition Transpose :: "'a Array \<Rightarrow> nat list \<Rightarrow> 'a Array" where
  "Transpose a axes =
     tabulate (map (\<lambda>j. shape a ! j) axes)
       (\<lambda>idx. elem_at a (map (\<lambda>m. idx ! index_of axes m) [0..<length axes]))"

text \<open>Modelled from the spec: \<^verbatim>\<open>Zeros\<close> (section 6, "a zero-filled allocator").\<close>

definition Zeros :: "Shape \<Rightarrow> 'a::zero Array" where
  "Zeros sh = \<lparr>shape = sh, elems = replicate (prod_list sh) 0\<rparr>"

text \<open>Modelled from the spec: \<^verbatim>\<open>Arange\<close> (section 6, "a strided-range generator"): the
  values \<open>start, start + step, ...\<close> below \<open>stop\<close>, for a positive step.\<close>

definition Arange :: "nat \<Rightarrow> nat \<Rightarrow> nat \<Rightarrow> nat Array" where
  "Arange start stop step =
     (let n = (stop - start + step - 1) div step
      in \<lparr>shape = [n], elems = map (\<lambda>i. start + i * step) [0..<n]\<rparr>)"

text \<open>Modelled from the spec: \<^verbatim>\<open>operator+\<close> on arrays of one shape (section 6,
  "elementwise binary ... ops (add ...)").\<close>

definition Add :: "'a::plus Array \<Rightarrow> 'a Array \<Rightarrow> 'a Array" where
  "Add a b = \<lparr>shape = shape a, elems = map2 (+) (elems a) (elems b)\<rparr>"

text \<open>Modelled from the spec: \<^verbatim>\<open>Device::Divide\<close> (section 6, "elementwise ... divide").\<close>

definition Divide :: "'a::divide Array \<Rightarrow> 'a Array \<Rightarrow> 'a Array" where
  "Divide a b = \<lparr>shape = shape a, elems = map2 (\<lambda>u v. u div v) (elems a) (elems b)\<rparr>"

text \<open>Modelled from the spec: \<^verbatim>\<open>Device::DivideAS\<close>, division of every element by one
  scalar (section 4.3, "sum divided by the nominal kernel volume").\<close>

definition DivideAS :: "'a::divide Array \<Rightarrow> 'a \<Rightarrow> 'a Array" where
  "DivideAS a c = \<lparr>shape = shape a, elems = map (\<lambda>u. u div c) (elems a)\<rparr>"

text \<open>Modelled from the spec: \<^verbatim>\<open>Device::AddAt\<close> along axis 0 of a one-dimensional array
  (section 6, "a scatter-add-at-indices operation"; section 4.2, "scatter-add"): for every
  position \<open>q\<close> of the index array in turn, \<open>b ! q\<close> is added to the element at
  \<open>indices ! q\<close>. The specification gives no behaviour for an index outside the array;
  the model leaves the array as it is there.\<close>

definition AddAt :: "'a::plus Array \<Rightarrow> nat Array \<Rightarrow> 'a Array \<Rightarrow> 'a Array" where
  "AddAt a indices b =
     a\<lparr>elems := fold (\<lambda>q acc. acc[elems indices ! q := acc ! (elems indices ! q) + elems b ! q])
                    [0..<length (elems indices)] (elems a)\<rparr>"

text \<open>Modelled from the spec: \<^verbatim>\<open>Take\<close> along axis 0 of a one-dimensional array
  (section 6, "a gather-by-index operation"): the result has the shape of the index array.\<close>

definition Take :: "'a Array \<Rightarrow> nat Array \<Rightarrow> 'a Array" where
  "Take a indices = \<lparr>shape = shape indices, elems = map (\<lambda>i. elems a ! i) (elems indices)\<rparr>"

subsection \<open>Reductions along a set of axes\<close>

definition axis_mask :: "nat \<Rightarrow> nat list \<Rightarrow> bool list" where
  "axis_mask r axes = map (\<lambda>j. j \<in> set axes) [0..<r]"

fun select_dims :: "bool list \<Rightarrow> 'b list \<Rightarrow> 'b list" where
  "select_dims (m # ms) (d # ds) = (if m then d # select_dims ms ds else select_dims ms ds)"
| "select_dims _ _ = []"

definition reduced_shape :: "Shape \<Rightarrow> nat list \<Rightarrow> Shape" where
  "reduced_shape sh axes = select_dims (axis_mask (length sh) axes) sh"

definition kept_shape :: "Shape \<Rightarrow> nat list \<Rightarrow> Shape" where
  "kept_shape sh axes = select_dims (map Not (axis_mask (length sh) axes)) sh"

text \<open>The index of the argument that a position \<open>rs\<close> along the reduced axes and a position
  \<open>ks\<close> along the kept axes make up.\<close>

fun merge_index :: "bool list \<Rightarrow> nat list \<Rightarrow> nat list \<Rightarrow> nat list" where
  "merge_index [] rs ks = []"
| "merge_index (True # ms) (r # rs) ks = r # merge_index ms rs ks"
| "merge_index (False # ms) rs (k # ks) = k # merge_index ms rs ks"
| "merge_index _ _ _ = []"

text \<open>The elements a reduction combines for one position of its result, in scan order of
  the reduced axes.\<close>

definition reduce_values :: "'a Array \<Rightarrow> nat list \<Rightarrow> nat list \<Rightarrow> 'a list" where
  "reduce_values a axes idx =
     map (\<lambda>r. elem_at a (merge_index (axis_mask (length (shape a)) axes) r idx))
       (all_indices (reduced_shape (shape a) axes))"

fun max_list :: "'a::linorder list \<Rightarrow> 'a" where
  "max_list (v # vs) = fold max vs v"
| "max_list [] = undefined"

text \<open>The scan of an argmax reduction: the running best is replaced only by a strictly
  greater element, so the first of several equal maxima is kept.\<close>

fun argmax_scan :: "'a::linorder list \<Rightarrow> nat \<Rightarrow> 'a \<Rightarrow> nat \<Rightarrow> nat" where
  "argmax_scan [] i best bi = bi"
| "argmax_scan (v # vs) i best bi =
     (if best < v then argmax_scan vs (Suc i) v i else argmax_scan vs (Suc i) best bi)"

fun argmax_list :: "'a::linorder list \<Rightarrow> nat" where
  "argmax_list (v # vs) = argmax_scan vs 1 v 0"
| "argmax_list [] = 0"

text \<open>Modelled from the spec: \<^verbatim>\<open>Array::Max\<close> (section 6, "reduction ops (sum, max, argmax
  along a specified axis set)"). The specification gives no value for a reduction over no
  element; kernel sizes are positive (section 3), and the model leaves that value open.\<close>

definition Max_axes :: "'a::linorder Array \<Rightarrow> nat list \<Rightarrow> 'a Array" where
  "Max_axes a axes =
     tabulate (kept_shape (shape a) axes) (\<lambda>idx. max_list (reduce_values a axes idx))"

text \<open>Modelled from the spec: \<^verbatim>\<open>Array::ArgMax\<close> (section 3, "each entry stores the flat
  offset, within its window's kernel-axes, of the position attaining the maximum";
  section 4.2, "ties broken by first-occurrence in axis-scan order").\<close>

definition ArgMax :: "'a::linorder Array \<Rightarrow> nat list \<Rightarrow> nat Array" where
  "ArgMax a axes =
     tabulate (kept_shape (shape a) axes) (\<lambda>idx. argmax_list (reduce_values a axes idx))"

text \<open>Modelled from the spec: \<^verbatim>\<open>Device::Sum\<close> (section 6, "reduction ops (sum ...)").\<close>

definition Sum_axes :: "'a::monoid_add Array \<Rightarrow> nat list \<Rightarrow> 'a Array" where
  "Sum_axes a axes =
     tabulate (kept_shape (shape a) axes) (\<lambda>idx. sum_list (reduce_values a axes idx))"

text \<open>Modelled from the spec: \<^verbatim>\<open>internal::CountItemsAlongAxes\<close> (section 4.3, "the nominal
  kernel volume, i.e. \<open>kernel_size_1 * ... * kernel_size_n\<close>"): the number of elements one
  position of a reduction along the axes combines.\<close>

definition CountItemsAlongAxes :: "Shape \<Rightarrow> nat list \<Rightarrow> nat" where
  "CountItemsAlongAxes sh axes = prod_list (reduced_shape sh axes)"

text \<open>Modelled from the spec: \<^verbatim>\<open>Array::BroadcastTo\<close> (section 4.4, "broadcast to the full
  output shape (including batch/channel)"): the trailing axes of the target are those of
  the argument, an axis of size one being repeated.\<close>

definition BroadcastTo :: "'a Array \<Rightarrow> Shape \<Rightarrow> 'a Array" where
  "BroadcastTo a sh =
     tabulate sh (\<lambda>idx. elem_at a (map2 (\<lambda>i d. if d = 1 then 0 else i)
                                (drop (length sh - length (shape a)) idx) (shape a)))"

text \<open>Modelled from the spec: \<^verbatim>\<open>TensorDot\<close> (section 6, "tensor-contraction utilities";
  section 4.4, "outer-product-style contraction"): the sum, over the positions along the
  contracted axes, of the products of the two arrays' elements; the kept axes of the first
  array come first. The contracted axes are paired in increasing order.\<close>

definition TensorDot :: "'a::semiring_0 Array \<Rightarrow> 'a Array \<Rightarrow> nat list \<Rightarrow> nat list \<Rightarrow> 'a Array" where
  "TensorDot a b a_axes b_axes =
     (let ka = kept_shape (shape a) a_axes;
          kb = kept_shape (shape b) b_axes
      in tabulate (ka @ kb)
           (\<lambda>idx. sum_list (map (\<lambda>r. elem_at a (merge_index (axis_mask (length (shape a)) a_axes) r (take (length ka) idx))
                                    * elem_at b (merge_index (axis_mask (length (shape b)) b_axes) r (drop (length ka) idx)))
                             (all_indices (reduced_shape (shape a) a_axes)))))"

subsection \<open>The window transform\<close>

text \<open>Modelled from the spec: \<^verbatim>\<open>internal::GetConvOutDim\<close> (section 3 and section 8):
  \<open>out = floor((dim + 2*pad - kernel_size) / stride) + 1\<close>, plus one when \<open>cover_all\<close>
  and the stride does not divide \<open>dim + 2*pad - kernel_size\<close>. A count that would be
  negative is no output position.\<close>

definition GetConvOutDim :: "nat \<Rightarrow> nat \<Rightarrow> nat \<Rightarrow> nat \<Rightarrow> bool \<Rightarrow> nat" where
  "GetConvOutDim d k s p cover_all =
     (let m = int d + 2 * int p - int k
      in nat (m div int s + 1 + (if cover_all \<and> m mod int s \<noteq> 0 then 1 else 0)))"

text \<open>The input coordinates that kernel offset \<open>ks\<close> of the window at output position
  \<open>qs\<close> samples: \<open>q * stride + k - pad\<close> along every spatial axis (section 4.1).\<close>

definition window_coords :: "nat list \<Rightarrow> nat list \<Rightarrow> nat list \<Rightarrow> nat list \<Rightarrow> int list" where
  "window_coords stride pad ks qs =
     map (\<lambda>i. int (qs ! i) * int (stride ! i) + int (ks ! i) - int (pad ! i)) [0..<length ks]"

definition coords_in_bounds :: "Shape \<Rightarrow> int list \<Rightarrow> bool" where
  "coords_in_bounds dims ys = list_all2 (\<lambda>y d. 0 \<le> y \<and> y < int d) ys dims"

definition out_dims :: "Shape \<Rightarrow> nat list \<Rightarrow> nat list \<Rightarrow> nat list \<Rightarrow> bool \<Rightarrow> Shape" where
  "out_dims dims kernel_size stride pad cover_all =
     map (\<lambda>i. GetConvOutDim (dims ! i) (kernel_size ! i) (stride ! i) (pad ! i) cover_all)
       [0..<length kernel_size]"

text \<open>Modelled from the spec: \<^verbatim>\<open>internal::Im2Col\<close> (section 4.1, window-extract): the
  columnar array of shape \<open>(batch, channel, k_1..k_n, out_1..out_n)\<close>; the element at
  kernel offset \<open>k\<close> and output position \<open>q\<close> is the input at \<open>q * stride + k - pad\<close>,
  and the fill value where that coordinate is outside the input.\<close>

definition Im2Col ::
  "'a Array \<Rightarrow> nat list \<Rightarrow> nat list \<Rightarrow> nat list \<Rightarrow> bool \<Rightarrow> 'a \<Rightarrow> 'a Array" where
  "Im2Col x kernel_size stride pad cover_all pad_value =
     (let n = length kernel_size;
          dims = drop 2 (shape x)
      in tabulate (take 2 (shape x) @ kernel_size @ out_dims dims kernel_size stride pad cover_all)
           (\<lambda>idx. let ys = window_coords stride pad (take n (drop 2 idx)) (drop (2 + n) idx)
                  in if coords_in_bounds dims ys then elem_at x (take 2 idx @ map nat ys)
                     else pad_value))"

text \<open>Modelled from the spec: \<^verbatim>\<open>internal::Col2Im\<close> (section 4.1, window-scatter): every
  input position accumulates the elements of the columnar array at the window and kernel
  offset pairs that sample it; pairs whose coordinate is outside the input contribute
  nothing.\<close>

definition Col2Im :: "'a::monoid_add Array \<Rightarrow> nat list \<Rightarrow> nat list \<Rightarrow> Shape \<Rightarrow> 'a Array" where
  "Col2Im col stride pad out_size =
     (let n = length out_size
      in tabulate (take 2 (shape col) @ out_size)
           (\<lambda>idx. sum_list (map (\<lambda>kq. if window_coords stride pad (take n kq) (drop n kq)
                                           = map int (drop 2 idx)
                                        then elem_at col (take 2 idx @ kq) else 0)
                             (all_indices (drop 2 (shape col))))))"

section \<open>Errors\<close>

text \<open>
  The failures of \<^verbatim>\<open>pool.cc\<close> as values: a failed \<^verbatim>\<open>assert\<close>, the use of a
  default-constructed \<^verbatim>\<open>Array\<close> (a cached member before the call that fills it),
  \<^verbatim>\<open>throw NotImplementedError{}\<close>, and \<^verbatim>\<open>XCHAINER_NEVER_REACH()\<close>.
\<close>

datatype error = AssertionFailed | NullArray | NotImplementedError | NeverReach

section \<open>Max pooling: \<^verbatim>\<open>NativeMaxPoolForwardBackward\<close>\<close>

text \<open>The kernel axes as both \<^verbatim>\<open>Forward\<close> methods build them: \<^verbatim>\<open>resize(n)\<close>, then
  \<^verbatim>\<open>std::iota\<close> from 2, that is \<open>2, ..., n + 1\<close>.\<close>

definition iota_axes :: "nat \<Rightarrow> nat list" where
  "iota_axes n = [2..<2 + n]"

text \<open>\<^verbatim>\<open>NumericLimits<T>::LowestOrInf()\<close> is not part of \<^verbatim>\<open>pool.cc\<close>: the dtype
  descriptor carries it.\<close>

record 'a Dtype =
  LowestOrInf :: 'a

definition GetLowestOrInf :: "'a Dtype \<Rightarrow> 'a" where
  "GetLowestOrInf dt = LowestOrInf dt"

text \<open>The \<^verbatim>\<open>for\<close> loop of the source as a fold over \<open>i = 2, ..., n + 1\<close>.\<close>

definition GetSwapSpatialDimensionsAxes :: "nat \<Rightarrow> nat list" where
  "GetSwapSpatialDimensionsAxes n =
     fold (\<lambda>i axes. axes[i := n + i, n + i := i]) [2..<n + 2]
       ((replicate (2 + 2 * n) 0)[0 := 0, 1 := 1])"

text \<open>The members of the class: member \<^verbatim>\<open>m_\<close> of the source is field \<open>mp_m\<close>. A
  default-constructed \<^verbatim>\<open>Array\<close> member is \<open>None\<close>.\<close>

record 'a MaxPool =
  mp_kernel_size :: "nat list"
  mp_stride :: "nat list"
  mp_pad :: "nat list"
  mp_x :: "'a Array option"
  mp_cover_all :: bool
  mp_col :: "'a Array option"
  mp_axes :: "nat list"
  mp_indices :: "nat Array option"
  mp_offset :: "nat Array option"

definition NativeMaxPoolForwardBackward ::
  "nat list \<Rightarrow> nat list \<Rightarrow> nat list \<Rightarrow> bool \<Rightarrow> 'a MaxPool" where
  "NativeMaxPoolForwardBackward kernel_size stride pad cover_all =
     \<lparr>mp_kernel_size = kernel_size, mp_stride = stride, mp_pad = pad, mp_x = None,
      mp_cover_all = cover_all, mp_col = None, mp_axes = [], mp_indices = None, mp_offset = None\<rparr>"

definition MaxPool_Forward ::
  "'a::linorder Dtype \<Rightarrow> 'a MaxPool \<Rightarrow> 'a Array \<Rightarrow> 'a Array \<times> 'a MaxPool" where
  "MaxPool_Forward dt st x =
     (let col = Im2Col x (mp_kernel_size st) (mp_stride st) (mp_pad st) (mp_cover_all st) (GetLowestOrInf dt);
          axes = iota_axes (length (mp_kernel_size st))
      in (Max_axes col axes, st\<lparr>mp_col := Some col, mp_axes := axes, mp_x := Some x\<rparr>))"

definition MaxPool_Backward ::
  "'a::{linorder,monoid_add} MaxPool \<Rightarrow> 'a Array \<Rightarrow> error + ('a Array \<times> 'a MaxPool)" where
  "MaxPool_Backward st gout =
     (case (mp_col st, mp_x st) of
        (Some col, Some x) \<Rightarrow>
          (let indices = ArgMax col (mp_axes st)
           in if shape indices \<noteq> shape gout then Inl AssertionFailed
              else
                (let kernel_total_size = fold (*) (mp_kernel_size st) 1;
                     out_total_size = GetTotalSize indices;
                     out_flat = [out_total_size];
                     gcol0 = Zeros [out_total_size * kernel_total_size];
                     offset = Arange 0 (out_total_size * kernel_total_size) kernel_total_size;
                     gcol = AddAt gcol0 (Add (Reshape indices out_flat) offset) (Reshape gout out_flat);
                     out_shape_with_kernel = shape gout @ mp_kernel_size st
                 in Inr (Col2Im
                           (Transpose (Reshape gcol out_shape_with_kernel)
                              (GetSwapSpatialDimensionsAxes (length (mp_kernel_size st))))
                           (mp_stride st) (mp_pad st) (drop 2 (shape x)),
                         st\<lparr>mp_indices := Some indices, mp_offset := Some offset\<rparr>)))
      | _ \<Rightarrow> Inl NullArray)"

definition MaxPool_DoubleBackward ::
  "'a Dtype \<Rightarrow> 'a MaxPool \<Rightarrow> 'a Array \<Rightarrow> error + 'a Array" where
  "MaxPool_DoubleBackward dt st ggx =
     (case (mp_x st, mp_indices st, mp_offset st) of
        (Some x, Some indices, Some offset) \<Rightarrow>
          (let col = Im2Col ggx (mp_kernel_size st) (mp_stride st) (mp_pad st) (mp_cover_all st) (GetLowestOrInf dt)
           in Inr (Take
                     (Reshape (Transpose col (GetSwapSpatialDimensionsAxes (length (mp_kernel_size st))))
                        [GetTotalSize col])
                     (Add indices (Reshape offset (shape indices)))))
      | _ \<Rightarrow> Inl NullArray)"

text \<open>The flattened col gradients \<^verbatim>\<open>gcol\<close> as \<^verbatim>\<open>Backward\<close> computes them from the index
  array, \<^verbatim>\<open>kernel_total_size\<close> and \<open>gout\<close>: the zero buffer, the offsets, the scatter-add.\<close>

definition gcol_of :: "nat Array \<Rightarrow> nat \<Rightarrow> 'a::monoid_add Array \<Rightarrow> 'a Array" where
  "gcol_of indices kernel_total_size gout =
     (let out_total_size = GetTotalSize indices;
          out_flat = [out_total_size];
          gcol = Zeros [out_total_size * kernel_total_size];
          offset = Arange 0 (out_total_size * kernel_total_size) kernel_total_size
      in AddAt gcol (Add (Reshape indices out_flat) offset) (Reshape gout out_flat))"

section \<open>Average pooling: \<^verbatim>\<open>NativeAveragePoolForwardBackward\<close>\<close>

text \<open>The enumeration \<^verbatim>\<open>AveragePoolPadMode\<close> is declared outside \<^verbatim>\<open>pool.cc\<close>; the
  \<^verbatim>\<open>switch\<close> in \<^verbatim>\<open>Forward\<close> names its two enumerators. A \<^verbatim>\<open>pad_mode_\<close> that holds any
  other value of the underlying type is \<open>kOther\<close>.\<close>

datatype AveragePoolPadMode = kZero | kIgnore | kOther nat

record AveragePool =
  ap_kernel_size :: "nat list"
  ap_stride :: "nat list"
  ap_pad :: "nat list"
  ap_pad_mode :: AveragePoolPadMode

definition Mean :: "'a::{monoid_add,divide,semiring_1} Array \<Rightarrow> nat list \<Rightarrow> 'a Array" where
  "Mean a axis = DivideAS (Sum_axes a axis) (of_nat (CountItemsAlongAxes (shape a) axis))"

text \<open>
  \<^verbatim>\<open>GetPadModeIgnorePoolingWidths\<close> computes in the C++ type \<^verbatim>\<open>T\<close> of its \<^verbatim>\<open>dtype\<close>:
  \<^verbatim>\<open>VisitDtype\<close>, declared outside \<^verbatim>\<open>pool.cc\<close>, calls the lambda with the tag
  \<^verbatim>\<open>PrimitiveType<T>\<close> of the dtype. A value of \<^verbatim>\<open>T\<close> is represented by the number it
  denotes, in an ordered ring, and \<^verbatim>\<open>T\<close> by the conversion to it: \<open>static_cast pt v\<close> is
  the value of \<^verbatim>\<open>T\<close> that C++ converts the number \<open>v\<close> to, by \<^verbatim>\<open>static_cast<T>\<close> and by the
  implicit conversion where a \<^verbatim>\<open>T\<close> is initialised or assigned.
\<close>

record 'a PrimitiveType =
  static_cast :: "'a \<Rightarrow> 'a"



definition bool_type :: "int PrimitiveType" where
  "bool_type = \<lparr>static_cast = (\<lambda>v. if v = 0 then 0 else 1)\<rparr>"

definition float_type :: "'a::linordered_field PrimitiveType" where
  "float_type = \<lparr>static_cast = (\<lambda>v. v)\<rparr>"

text \<open>\<^verbatim>\<open>Impl::operator()\<close>. The members \<open>d\<close>, \<open>k\<close>, \<open>s\<close>, \<open>p\<close> and the locals \<^verbatim>\<open>start\<close>,
  \<^verbatim>\<open>end\<close> and the result \<^verbatim>\<open>w\<close> are of type \<^verbatim>\<open>T\<close>. C++ evaluates \<^verbatim>\<open>i * s - p\<close> in the common
  type of \<^verbatim>\<open>int64_t\<close> and \<^verbatim>\<open>T\<close>, and \<^verbatim>\<open>start + k\<close> and \<^verbatim>\<open>end - start\<close> in the promoted
  type of \<^verbatim>\<open>T\<close>, and converts each result to \<^verbatim>\<open>T\<close>; the comparisons are between the
  promoted values. An overflow of a signed 32 or 64 bit intermediate, which C++ leaves
  undefined, wraps around here as the conversion does. The literal 0 is the 0 of every
  \<^verbatim>\<open>T\<close>.\<close>

definition Impl :: "'a::linordered_idom PrimitiveType \<Rightarrow> 'a \<Rightarrow> 'a \<Rightarrow> 'a \<Rightarrow> 'a \<Rightarrow> int \<Rightarrow> 'a" where
  "Impl pt d k s p i =
     (let start = static_cast pt (of_int i * s - p);
          end' = static_cast pt (start + k);
          start = (if start < 0 then 0 else start);
          end' = (if end' > d then d else end')
      in static_cast pt (end' - start))"

text \<open>Modelled from the spec: \<^verbatim>\<open>Elementwise\<close> over a freshly allocated (\<^verbatim>\<open>Empty\<close>)
  one-dimensional array (section 6, "generic elementwise-loop"): the functor is called
  once per element with the element's index.\<close>

definition Elementwise :: "(int \<Rightarrow> 'a) \<Rightarrow> Shape \<Rightarrow> 'a Array" where
  "Elementwise f sh = \<lparr>shape = sh, elems = map (\<lambda>i. f (int i)) [0..<prod_list sh]\<rparr>"

text \<open>One iteration of the loop over the spatial axes.\<close>

definition widths_step ::
  "Shape \<Rightarrow> nat list \<Rightarrow> nat list \<Rightarrow> nat list \<Rightarrow> 'a::linordered_idom PrimitiveType \<Rightarrow> nat
     \<Rightarrow> 'a Array option \<Rightarrow> 'a Array option" where
  "widths_step sh kernel_size stride pad dtype i widths =
     (let dim_i = sh ! (2 + i);
          kernel_size_i = kernel_size ! i;
          stride_i = stride ! i;
          pad_i = pad ! i;
          width = Elementwise (Impl dtype (static_cast dtype (of_nat dim_i))
                                 (static_cast dtype (of_nat kernel_size_i))
                                 (static_cast dtype (of_nat stride_i))
                                 (static_cast dtype (of_nat pad_i)))
                    [GetConvOutDim dim_i kernel_size_i stride_i pad_i False]
      in if i = 0 then Some width
         else (case widths of
                 None \<Rightarrow> None
               | Some w \<Rightarrow>
                   Some (TensorDot (Reshape w (shape w @ [1])) (Reshape width (1 # shape width))
                           [ndim w] [0])))"

definition GetPadModeIgnorePoolingWidths ::
  "Shape \<Rightarrow> nat list \<Rightarrow> nat list \<Rightarrow> nat list \<Rightarrow> 'a::linordered_idom PrimitiveType
     \<Rightarrow> error + 'a Array option" where
  "GetPadModeIgnorePoolingWidths sh kernel_size stride pad dtype =
     (let n = int (length sh) - 2
      in if n \<noteq> int (length kernel_size) \<or> n \<noteq> int (length stride) \<or> n \<noteq> int (length pad)
         then Inl AssertionFailed
         else Inr (fold (widths_step sh kernel_size stride pad dtype) [0..<nat n] None))"

text \<open>\<^verbatim>\<open>Forward\<close>, for an input of a floating dtype: the elements of \<open>x\<close> are in an ordered
  field, and \<^verbatim>\<open>x.dtype()\<close> is the dtype of \<open>float_type\<close>.\<close>

definition AvgPool_Forward ::
  "AveragePool \<Rightarrow> 'a::linordered_field Array \<Rightarrow> error + 'a Array" where
  "AvgPool_Forward ap x =
     (let col = Im2Col x (ap_kernel_size ap) (ap_stride ap) (ap_pad ap) False 0;
          kernel_axes = iota_axes (length (ap_kernel_size ap))
      in case ap_pad_mode ap of
           kZero \<Rightarrow> Inr (Mean col kernel_axes)
         | kIgnore \<Rightarrow>
             (case GetPadModeIgnorePoolingWidths (shape x) (ap_kernel_size ap) (ap_stride ap) (ap_pad ap)
                     float_type of
                Inl e \<Rightarrow> Inl e
              | Inr None \<Rightarrow> Inl NullArray
              | Inr (Some widths) \<Rightarrow>
                  (let out = Sum_axes col kernel_axes
                   in Inr (Divide out (BroadcastTo widths (shape out)))))
         | kOther v \<Rightarrow> Inl NeverReach)"

definition AvgPool_Backward :: "AveragePool \<Rightarrow> 'a Array \<Rightarrow> error + 'a Array" where
  "AvgPool_Backward ap gout = Inl NotImplementedError"

section \<open>Well-formed operator arguments, windows\<close>

text \<open>
  The arguments the operators are built for (section 3 of the specification): the input has
  the two leading axes and one spatial axis per entry of \<open>kernel_size\<close>, \<open>stride\<close>
  and \<open>pad\<close>, and the kernel sizes are positive.
\<close>

definition valid_pool :: "Shape \<Rightarrow> nat list \<Rightarrow> nat list \<Rightarrow> nat list \<Rightarrow> bool" where
  "valid_pool sh kernel_size stride pad =
     (length sh = 2 + length kernel_size \<and> length stride = length kernel_size
      \<and> length pad = length kernel_size \<and> 0 \<notin> set kernel_size)"

text \<open>The in-bounds elements of the window of output position \<open>idx\<close>, in scan order of the
  kernel offsets: those input elements whose coordinate \<open>q * stride + k - pad\<close> lies inside
  the input.\<close>

definition window_elems :: "'a Array \<Rightarrow> nat list \<Rightarrow> nat list \<Rightarrow> nat list \<Rightarrow> nat list \<Rightarrow> 'a list" where
  "window_elems x kernel_size stride pad idx =
     map (\<lambda>r. elem_at x (take 2 idx @ map nat (window_coords stride pad r (drop 2 idx))))
       (filter (\<lambda>r. coords_in_bounds (drop 2 (shape x)) (window_coords stride pad r (drop 2 idx)))
          (all_indices kernel_size))"

text \<open>A non-overlapping tiling of the input by the windows: the stride is the kernel size,
  there is no padding, and every kernel size divides its input dimension.\<close>

definition tiling :: "Shape \<Rightarrow> nat list \<Rightarrow> nat list \<Rightarrow> nat list \<Rightarrow> bool" where
  "tiling dims kernel_size stride pad =
     (stride = kernel_size \<and> pad = replicate (length kernel_size) 0
      \<and> list_all2 (\<lambda>d k. k dvd d) dims kernel_size)"

section \<open>The effective window width\<close>


text \<open>A primitive type represents the integers \<open>vs\<close>: the conversion to it leaves each of
  them as it is.\<close>

definition represents :: "'a::linordered_idom PrimitiveType \<Rightarrow> int list \<Rightarrow> bool" where
  "represents pt vs = list_all (\<lambda>v. static_cast pt (of_int v) = of_int v) vs"





section \<open>Concrete instances\<close>

text \<open>
  The instances at which the theorems below are evaluated: the one-dimensional input
  \<open>[1, 2, 3, 4]\<close> of section 8 of the specification (batch and channel of size one),
  with the lowest value of an 8-bit signed dtype as the fill of max pooling.
\<close>

definition int8_dtype :: "int Dtype" where
  "int8_dtype = \<lparr>LowestOrInf = - 128\<rparr>"

definition x_1234 :: "int Array" where
  "x_1234 = \<lparr>shape = [1, 1, 4], elems = [1, 2, 3, 4]\<rparr>"

definition xr_1234 :: "rat Array" where
  "xr_1234 = \<lparr>shape = [1, 1, 4], elems = [1, 2, 3, 4]\<rparr>"

definition gout_123 :: "int Array" where
  "gout_123 = \<lparr>shape = [1, 1, 3], elems = [10, 20, 30]\<rparr>"

text \<open>A max-pool instance with kernel 2, stride 2, pad 1, as constructed, and after
  \<^verbatim>\<open>Forward\<close> on \<open>[1, 2, 3, 4]\<close> followed by \<^verbatim>\<open>Backward\<close>.\<close>

definition mp_221 :: "int MaxPool" where
  "mp_221 = NativeMaxPoolForwardBackward [2] [2] [1] False"

definition mp_221_done :: "int MaxPool" where
  "mp_221_done =
     \<lparr>mp_kernel_size = [2], mp_stride = [2], mp_pad = [1],
      mp_x = Some \<lparr>shape = [1, 1, 4], elems = [1, 2, 3, 4]\<rparr>,
      mp_cover_all = False,
      mp_col = Some \<lparr>shape = [1, 1, 2, 3], elems = [- 128, 2, 4, 1, 3, - 128]\<rparr>,
      mp_axes = [2],
      mp_indices = Some \<lparr>shape = [1, 1, 3], elems = [1, 1, 0]\<rparr>,
      mp_offset = Some \<lparr>shape = [3], elems = [0, 2, 4]\<rparr>\<rparr>"

text \<open>A max-pool instance that tiles \<open>[1, 2, 3, 4]\<close>: kernel 2, stride 2, no padding.\<close>

definition mp_220 :: "int MaxPool" where
  "mp_220 = NativeMaxPoolForwardBackward [2] [2] [0] False"

definition gout_12 :: "int Array" where
  "gout_12 = \<lparr>shape = [1, 1, 2], elems = [10, 20]\<rparr>"

text \<open>A second-order gradient of the shape of \<open>[1, 2, 3, 4]\<close>, and a max-pool instance
  with kernel 1, stride 2, no padding and \<open>cover_all\<close>, with its state after \<^verbatim>\<open>Forward\<close>
  of \<open>[1, 2, 3, 4]\<close> and \<^verbatim>\<open>Backward\<close>.\<close>

definition ggx_1234 :: "int Array" where
  "ggx_1234 = \<lparr>shape = [1, 1, 4], elems = [10, 20, 30, 40]\<rparr>"

definition mp_120c :: "int MaxPool" where
  "mp_120c = NativeMaxPoolForwardBackward [1] [2] [0] True"

definition mp_120c_done :: "int MaxPool" where
  "mp_120c_done =
     \<lparr>mp_kernel_size = [1], mp_stride = [2], mp_pad = [0],
      mp_x = Some \<lparr>shape = [1, 1, 4], elems = [1, 2, 3, 4]\<rparr>,
      mp_cover_all = True,
      mp_col = Some \<lparr>shape = [1, 1, 1, 3], elems = [1, 3, - 128]\<rparr>,
      mp_axes = [2],
      mp_indices = Some \<lparr>shape = [1, 1, 3], elems = [0, 0, 0]\<rparr>,
      mp_offset = Some \<lparr>shape = [3], elems = [0, 1, 2]\<rparr>\<rparr>"


text \<open>Two inputs whose maxima lie at different kernel offsets, and the state of the
  tiling instance after \<^verbatim>\<open>Forward\<close> of the first and \<^verbatim>\<open>Backward\<close>.\<close>

definition x_5115 :: "int Array" where
  "x_5115 = \<lparr>shape = [1, 1, 4], elems = [5, 1, 1, 5]\<rparr>"

definition x_1551 :: "int Array" where
  "x_1551 = \<lparr>shape = [1, 1, 4], elems = [1, 5, 5, 1]\<rparr>"


definition mp_220_done :: "int MaxPool" where
  "mp_220_done =
     \<lparr>mp_kernel_size = [2], mp_stride = [2], mp_pad = [0],
      mp_x = Some \<lparr>shape = [1, 1, 4], elems = [5, 1, 1, 5]\<rparr>,
      mp_cover_all = False,
      mp_col = Some \<lparr>shape = [1, 1, 2, 2], elems = [5, 1, 1, 5]\<rparr>,
      mp_axes = [2],
      mp_indices = Some \<lparr>shape = [1, 1, 2], elems = [0, 1]\<rparr>,
      mp_offset = Some \<lparr>shape = [2], elems = [0, 2]\<rparr>\<rparr>"

section \<open>Supporting lemmas\<close>

subsection \<open>Indices\<close>

lemma in_shape_Nil [simp]: "in_shape [] idx \<longleftrightarrow> idx = []"
  by (simp add: in_shape_def)

lemma in_shape_Cons:
  "in_shape (d # ds) idx \<longleftrightarrow> (\<exists>j js. idx = j # js \<and> j < d \<and> in_shape ds js)"
  by (auto simp: in_shape_def list_all2_Cons2)

lemma in_shape_Cons_Cons [simp]:
  "in_shape (d # ds) (j # js) \<longleftrightarrow> j < d \<and> in_shape ds js"
  by (simp add: in_shape_def)

lemma in_shape_length: "in_shape sh idx \<Longrightarrow> length idx = length sh"
  by (simp add: in_shape_def list_all2_lengthD)

lemma in_shape_nth: "in_shape sh idx \<Longrightarrow> i < length sh \<Longrightarrow> idx ! i < sh ! i"
  by (simp add: in_shape_def list_all2_conv_all_nth)

lemma in_shape_conv_nth:
  "in_shape sh idx \<longleftrightarrow> length idx = length sh \<and> (\<forall>i < length sh. idx ! i < sh ! i)"
  by (auto simp: in_shape_def list_all2_conv_all_nth)

lemma in_shape_append:
  "length a = length s1 \<Longrightarrow> in_shape (s1 @ s2) (a @ b) \<longleftrightarrow> in_shape s1 a \<and> in_shape s2 b"
  by (simp add: in_shape_def list_all2_append)

lemma in_shape_split:
  "in_shape (s1 @ s2) idx \<longleftrightarrow>
     in_shape s1 (take (length s1) idx) \<and> in_shape s2 (drop (length s1) idx)"
proof
  assume h: "in_shape (s1 @ s2) idx"
  then have "length idx = length s1 + length s2" by (simp add: in_shape_length)
  then have "length (take (length s1) idx) = length s1" by simp
  with h in_shape_append [of "take (length s1) idx" s1 s2 "drop (length s1) idx"]
  show "in_shape s1 (take (length s1) idx) \<and> in_shape s2 (drop (length s1) idx)" by simp
next
  assume h: "in_shape s1 (take (length s1) idx) \<and> in_shape s2 (drop (length s1) idx)"
  then have "length (take (length s1) idx) = length s1" using in_shape_length by blast
  with h in_shape_append [of "take (length s1) idx" s1 s2 "drop (length s1) idx"]
  show "in_shape (s1 @ s2) idx" by simp
qed

lemma in_shape_prod_pos: "in_shape sh idx \<Longrightarrow> 0 < prod_list sh"
proof (induction sh arbitrary: idx)
  case Nil then show ?case by simp
next
  case (Cons d ds)
  then show ?case by (auto simp: in_shape_Cons)
qed

lemma ravel_less: "in_shape sh idx \<Longrightarrow> ravel sh idx < prod_list sh"
proof (induction sh arbitrary: idx)
  case Nil then show ?case by simp
next
  case (Cons d ds)
  then obtain j js where idx: "idx = j # js" and j: "j < d" and js: "in_shape ds js"
    by (auto simp: in_shape_Cons)
  have r: "ravel ds js < prod_list ds" using Cons.IH js by simp
  have "j * prod_list ds + ravel ds js < (j + 1) * prod_list ds" using r by simp
  also have "\<dots> \<le> d * prod_list ds" using j by (intro mult_le_mono1) simp
  finally show ?case by (simp add: idx)
qed

lemma unravel_ravel: "in_shape sh idx \<Longrightarrow> unravel sh (ravel sh idx) = idx"
proof (induction sh arbitrary: idx)
  case Nil then show ?case by simp
next
  case (Cons d ds)
  then obtain j js where idx: "idx = j # js" and j: "j < d" and js: "in_shape ds js"
    by (auto simp: in_shape_Cons)
  have r: "ravel ds js < prod_list ds" using js by (rule ravel_less)
  show ?case using r Cons.IH [OF js] by (simp add: idx)
qed

lemma in_shape_unravel: "j < prod_list sh \<Longrightarrow> in_shape sh (unravel sh j)"
proof (induction sh arbitrary: j)
  case Nil then show ?case by simp
next
  case (Cons d ds)
  have pos: "0 < prod_list ds" using Cons.prems by (cases "prod_list ds = 0") auto
  have "j div prod_list ds < d"
    using Cons.prems pos by (simp add: less_mult_imp_div_less mult.commute)
  moreover have "in_shape ds (unravel ds (j mod prod_list ds))"
    using pos by (intro Cons.IH) simp
  ultimately show ?case by simp
qed

lemma ravel_unravel: "j < prod_list sh \<Longrightarrow> ravel sh (unravel sh j) = j"
proof (induction sh arbitrary: j)
  case Nil then show ?case by simp
next
  case (Cons d ds)
  have pos: "0 < prod_list ds" using Cons.prems by (cases "prod_list ds = 0") auto
  have "ravel ds (unravel ds (j mod prod_list ds)) = j mod prod_list ds"
    using pos by (intro Cons.IH) simp
  then show ?case by simp
qed

lemma length_unravel [simp]: "length (unravel sh j) = length sh"
  by (induction sh arbitrary: j) auto

lemma ravel_append:
  "length a = length s1 \<Longrightarrow>
     ravel (s1 @ s2) (a @ b) = ravel s1 a * prod_list s2 + ravel s2 b"
proof (induction s1 arbitrary: a)
  case Nil then show ?case by simp
next
  case (Cons d ds)
  then obtain j js where a: "a = j # js" and l: "length js = length ds"
    by (cases a) auto
  show ?case using Cons.IH [OF l] by (simp add: a algebra_simps)
qed

lemma unravel_append:
  "j < prod_list (s1 @ s2) \<Longrightarrow>
     unravel (s1 @ s2) j =
       unravel s1 (j div prod_list s2) @ unravel s2 (j mod prod_list s2)"
proof (induction s1 arbitrary: j)
  case Nil
  then show ?case by simp
next
  case (Cons d ds)
  let ?P = "prod_list ds" and ?Q = "prod_list s2"
  have pos: "0 < ?P * ?Q" using Cons.prems by (cases "?P * ?Q = 0") auto
  have posQ: "0 < ?Q" using pos by simp
  have c: "?P * ?Q = ?Q * ?P" by (rule mult.commute)
  have 1: "j div (?P * ?Q) = (j div ?Q) div ?P"
    unfolding c by (rule div_mult2_eq)
  have m: "j mod (?P * ?Q) = ?Q * (j div ?Q mod ?P) + j mod ?Q"
    unfolding c by (rule mod_mult2_eq)
  have 2: "(j mod (?P * ?Q)) div ?Q = (j div ?Q) mod ?P"
    unfolding m using posQ by simp
  have 3: "(j mod (?P * ?Q)) mod ?Q = j mod ?Q"
    unfolding m by simp
  have "j mod (?P * ?Q) < prod_list (ds @ s2)" using pos by simp
  from Cons.IH [OF this] show ?case by (simp add: 1 2 3)
qed

lemma length_all_indices [simp]: "length (all_indices sh) = prod_list sh"
  by (simp add: all_indices_def)

lemma nth_all_indices: "j < prod_list sh \<Longrightarrow> all_indices sh ! j = unravel sh j"
  by (simp add: all_indices_def)

lemma set_all_indices: "set (all_indices sh) = {idx. in_shape sh idx}"
proof (intro set_eqI iffI)
  fix idx assume "idx \<in> set (all_indices sh)"
  then show "idx \<in> {idx. in_shape sh idx}"
    by (auto simp: all_indices_def in_shape_unravel)
next
  fix idx assume "idx \<in> {idx. in_shape sh idx}"
  then have h: "in_shape sh idx" by simp
  then have "unravel sh (ravel sh idx) = idx" "ravel sh idx < prod_list sh"
    by (simp_all add: unravel_ravel ravel_less)
  then show "idx \<in> set (all_indices sh)"
    unfolding all_indices_def by (metis atLeast0LessThan imageI lessThan_iff set_map set_upt)
qed

lemma distinct_all_indices: "distinct (all_indices sh)"
  unfolding all_indices_def distinct_map
proof (intro conjI inj_onI)
  show "distinct [0..<prod_list sh]" by simp
next
  fix i j assume "i \<in> set [0..<prod_list sh]" "j \<in> set [0..<prod_list sh]"
    and e: "unravel sh i = unravel sh j"
  then have "i < prod_list sh" "j < prod_list sh" by simp_all
  then show "i = j" using e by (metis ravel_unravel)
qed

lemma finite_in_shape [simp]: "finite {idx. in_shape sh idx}"
  using set_all_indices [of sh, symmetric] by (metis List.finite_set)

lemma sum_list_all_indices:
  fixes f :: "nat list \<Rightarrow> 'a::comm_monoid_add"
  shows "sum_list (map f (all_indices sh)) = (\<Sum>idx \<in> {idx. in_shape sh idx}. f idx)"
  using sum_list_distinct_conv_sum_set [OF distinct_all_indices, of f sh]
  by (simp add: set_all_indices)

lemma shape_tabulate [simp]: "shape (tabulate sh f) = sh"
  by (simp add: tabulate_def)

lemma length_elems_tabulate [simp]: "length (elems (tabulate sh f)) = prod_list sh"
  by (simp add: tabulate_def)

lemma well_formed_tabulate [simp]: "well_formed (tabulate sh f)"
  by (simp add: well_formed_def)

lemma elems_tabulate_nth:
  "j < prod_list sh \<Longrightarrow> elems (tabulate sh f) ! j = f (unravel sh j)"
  by (simp add: tabulate_def all_indices_def)

lemma elem_at_tabulate:
  "in_shape sh idx \<Longrightarrow> elem_at (tabulate sh f) idx = f idx"
  by (simp add: elem_at_def elems_tabulate_nth ravel_less unravel_ravel)

lemma elem_at_unravel:
  "j < prod_list (shape a) \<Longrightarrow> elem_at a (unravel (shape a) j) = elems a ! j"
  by (simp add: elem_at_def ravel_unravel)

lemma tabulate_cong:
  "(\<And>idx. in_shape sh idx \<Longrightarrow> f idx = g idx) \<Longrightarrow> tabulate sh f = tabulate sh g"
  by (simp add: tabulate_def set_all_indices)

subsection \<open>Maximum and argmax of a list\<close>

lemma max_list_eq_Max: "vs \<noteq> [] \<Longrightarrow> max_list vs = Max (set vs)"
proof (cases vs)
  case Nil
  assume "vs \<noteq> []"
  with Nil show ?thesis by simp
next
  case (Cons v ws)
  show ?thesis unfolding Cons max_list.simps by (rule Max.set_eq_fold [symmetric])
qed

lemma argmax_scan_props:
  "i = length pre \<Longrightarrow> bi < length pre \<Longrightarrow> best = pre ! bi
    \<Longrightarrow> (\<forall>j < length pre. pre ! j \<le> best) \<Longrightarrow> (\<forall>j < bi. pre ! j < best)
    \<Longrightarrow> argmax_scan vs i best bi < length (pre @ vs)
        \<and> (\<forall>j < length (pre @ vs). (pre @ vs) ! j \<le> (pre @ vs) ! argmax_scan vs i best bi)
        \<and> (\<forall>j < argmax_scan vs i best bi. (pre @ vs) ! j < (pre @ vs) ! argmax_scan vs i best bi)"
proof (induction vs arbitrary: pre i best bi)
  case Nil
  then show ?case by simp
next
  case (Cons v vs)
  show ?case
  proof (cases "best < v")
    case True
    have a: "Suc i = length (pre @ [v])" using Cons.prems by simp
    have b: "i < length (pre @ [v])" using Cons.prems by simp
    have c: "v = (pre @ [v]) ! i" using Cons.prems by simp
    have d: "\<forall>j < length (pre @ [v]). (pre @ [v]) ! j \<le> v"
    proof (intro allI impI)
      fix j assume j: "j < length (pre @ [v])"
      show "(pre @ [v]) ! j \<le> v"
      proof (cases "j < length pre")
        case True
        then have "pre ! j \<le> best" using Cons.prems(4) by simp
        then show ?thesis using True \<open>best < v\<close> by (simp add: nth_append)
      next
        case False
        then have "j = length pre" using j by simp
        then show ?thesis by simp
      qed
    qed
    have e: "\<forall>j < i. (pre @ [v]) ! j < v"
    proof (intro allI impI)
      fix j assume j: "j < i"
      then have "pre ! j \<le> best" using Cons.prems(1,4) by simp
      then show "(pre @ [v]) ! j < v" using j Cons.prems(1) \<open>best < v\<close> by (simp add: nth_append)
    qed
    from Cons.IH [OF a b c d e] show ?thesis using True by simp
  next
    case False
    have a: "Suc i = length (pre @ [v])" using Cons.prems by simp
    have b: "bi < length (pre @ [v])" using Cons.prems by simp
    have c: "best = (pre @ [v]) ! bi" using Cons.prems by (simp add: nth_append)
    have d: "\<forall>j < length (pre @ [v]). (pre @ [v]) ! j \<le> best"
      using Cons.prems False by (auto simp: nth_append less_Suc_eq)
    have e: "\<forall>j < bi. (pre @ [v]) ! j < best"
      using Cons.prems by (auto simp: nth_append)
    from Cons.IH [OF a b c d e] show ?thesis using False by simp
  qed
qed

lemma argmax_list_props:
  assumes "vs \<noteq> []"
  shows "argmax_list vs < length vs"
    and "\<forall>j < length vs. vs ! j \<le> vs ! argmax_list vs"
    and "\<forall>j < argmax_list vs. vs ! j < vs ! argmax_list vs"
proof -
  obtain v ws where vs: "vs = v # ws" using assms by (cases vs) auto
  have "argmax_scan ws 1 v 0 < length ([v] @ ws)
        \<and> (\<forall>j < length ([v] @ ws). ([v] @ ws) ! j \<le> ([v] @ ws) ! argmax_scan ws 1 v 0)
        \<and> (\<forall>j < argmax_scan ws 1 v 0. ([v] @ ws) ! j < ([v] @ ws) ! argmax_scan ws 1 v 0)"
    by (rule argmax_scan_props) simp_all
  then show "argmax_list vs < length vs"
    and "\<forall>j < length vs. vs ! j \<le> vs ! argmax_list vs"
    and "\<forall>j < argmax_list vs. vs ! j < vs ! argmax_list vs"
    by (simp_all add: vs)
qed

lemma nth_argmax_list_eq_max_list:
  assumes "vs \<noteq> []"
  shows "vs ! argmax_list vs = max_list vs"
proof -
  have "vs ! argmax_list vs \<in> set vs" using argmax_list_props(1) [OF assms] by simp
  moreover have "\<forall>v \<in> set vs. v \<le> vs ! argmax_list vs"
    using argmax_list_props(2) [OF assms] by (auto simp: in_set_conv_nth)
  ultimately have "Max (set vs) = vs ! argmax_list vs"
    by (intro Max_eqI) auto
  then show ?thesis by (simp add: max_list_eq_Max assms)
qed

subsection \<open>Reductions along the kernel axes\<close>

lemma axis_mask_kernel:
  "axis_mask (2 + n + m) (iota_axes n) = replicate 2 False @ replicate n True @ replicate m False"
proof (rule nth_equalityI)
  show "length (axis_mask (2 + n + m) (iota_axes n))
      = length (replicate 2 False @ replicate n True @ replicate m False)"
    by (simp add: axis_mask_def)
next
  fix i assume "i < length (axis_mask (2 + n + m) (iota_axes n))"
  then have i: "i < 2 + n + m" by (simp add: axis_mask_def)
  then have "axis_mask (2 + n + m) (iota_axes n) ! i = (2 \<le> i \<and> i < 2 + n)"
    unfolding axis_mask_def iota_axes_def by (simp only: nth_map length_upt nth_upt set_upt atLeastLessThan_iff diff_zero add_0)
  also have "\<dots> = (replicate 2 False @ replicate n True @ replicate m False) ! i"
    using i by (auto simp: nth_append)
  finally show "axis_mask (2 + n + m) (iota_axes n) ! i
      = (replicate 2 False @ replicate n True @ replicate m False) ! i" .
qed

lemma select_dims_False:
  "select_dims (replicate (length xs) False @ ms) (xs @ ys) = select_dims ms ys"
  by (induction xs) auto

lemma select_dims_True:
  "select_dims (replicate (length xs) True @ ms) (xs @ ys) = xs @ select_dims ms ys"
  by (induction xs) auto

lemma select_dims_Nil [simp]: "select_dims [] ys = []"
  by (cases ys) auto

lemma reduced_shape_kernel:
  assumes "length bc = 2"
  shows "reduced_shape (bc @ ks @ qs) (iota_axes (length ks)) = ks"
proof -
  have "reduced_shape (bc @ ks @ qs) (iota_axes (length ks))
      = select_dims (replicate (length bc) False @ replicate (length ks) True @ replicate (length qs) False)
          (bc @ ks @ qs)"
    using assms axis_mask_kernel [of "length ks" "length qs"] by (simp add: reduced_shape_def)
  also have "\<dots> = ks @ select_dims (replicate (length qs) False @ []) (qs @ [])"
    by (simp only: select_dims_False select_dims_True append_Nil2)
  also have "\<dots> = ks" by (simp only: select_dims_False) simp
  finally show ?thesis .
qed

lemma kept_shape_kernel:
  assumes "length bc = 2"
  shows "kept_shape (bc @ ks @ qs) (iota_axes (length ks)) = bc @ qs"
proof -
  have "kept_shape (bc @ ks @ qs) (iota_axes (length ks))
      = select_dims (replicate (length bc) True @ replicate (length ks) False @ replicate (length qs) True)
          (bc @ ks @ qs)"
    using assms axis_mask_kernel [of "length ks" "length qs"] by (simp add: kept_shape_def)
  also have "\<dots> = bc @ select_dims (replicate (length qs) True @ []) (qs @ [])"
    by (simp only: select_dims_False select_dims_True append_Nil2)
  also have "\<dots> = bc @ qs" by (simp only: select_dims_True) simp
  finally show ?thesis .
qed

lemma merge_index_False:
  "merge_index (replicate (length ks1) False @ ms) rs (ks1 @ ks) = ks1 @ merge_index ms rs ks"
  by (induction ks1) auto

lemma merge_index_True:
  "merge_index (replicate (length rs1) True @ ms) (rs1 @ rs) ks = rs1 @ merge_index ms rs ks"
  by (induction rs1) auto

lemma merge_index_kernel:
  assumes "length b = 2" "length r = n" "length q = m"
  shows "merge_index (axis_mask (2 + n + m) (iota_axes n)) r (b @ q) = b @ r @ q"
proof -
  have "merge_index (axis_mask (2 + n + m) (iota_axes n)) r (b @ q)
      = merge_index (replicate 2 False @ replicate n True @ replicate m False) r (b @ q)"
    by (simp only: axis_mask_kernel)
  also have "\<dots>
      = merge_index (replicate (length b) False @ replicate (length r) True @ replicate (length q) False @ [])
          (r @ []) (b @ q @ [])"
    using assms by simp
  also have "\<dots> = b @ r @ q @ merge_index [] [] []"
    by (simp only: merge_index_False merge_index_True)
  finally show ?thesis by simp
qed

lemma reduce_values_kernel:
  assumes sh: "shape a = bc @ ks @ qs" and bc: "length bc = 2"
    and idx: "length idx = 2 + length qs"
  shows "reduce_values a (iota_axes (length ks)) idx
       = map (\<lambda>r. elem_at a (take 2 idx @ r @ drop 2 idx)) (all_indices ks)"
proof -
  have len: "length (shape a) = 2 + length ks + length qs" using sh bc by simp
  have "map (\<lambda>r. elem_at a (merge_index (axis_mask (length (shape a)) (iota_axes (length ks))) r idx))
          (all_indices ks)
      = map (\<lambda>r. elem_at a (take 2 idx @ r @ drop 2 idx)) (all_indices ks)"
  proof (rule map_cong [OF refl])
    fix r assume "r \<in> set (all_indices ks)"
    then have r: "length r = length ks" by (simp add: set_all_indices in_shape_length)
    have "merge_index (axis_mask (2 + length ks + length qs) (iota_axes (length ks))) r
            (take 2 idx @ drop 2 idx) = take 2 idx @ r @ drop 2 idx"
      using idx r by (intro merge_index_kernel) simp_all
    then show "elem_at a (merge_index (axis_mask (length (shape a)) (iota_axes (length ks))) r idx)
        = elem_at a (take 2 idx @ r @ drop 2 idx)"
      by (simp add: len)
  qed
  then show ?thesis
    using reduced_shape_kernel [OF bc, of ks qs] by (simp add: reduce_values_def sh)
qed

lemma reduce_values_nonempty:
  assumes sh: "shape a = bc @ ks @ qs" and bc: "length bc = 2"
    and idx: "length idx = 2 + length qs" and pos: "0 < prod_list ks"
  shows "reduce_values a (iota_axes (length ks)) idx \<noteq> []"
  using pos by (simp add: reduce_values_kernel [OF sh bc idx] flip: length_0_conv)

lemma length_reduce_values:
  assumes sh: "shape a = bc @ ks @ qs" and bc: "length bc = 2"
    and idx: "length idx = 2 + length qs"
  shows "length (reduce_values a (iota_axes (length ks)) idx) = prod_list ks"
  by (simp add: reduce_values_kernel [OF sh bc idx])

subsection \<open>The windowed array\<close>

lemma length_out_dims [simp]:
  "length (out_dims dims kernel_size stride pad cover_all) = length kernel_size"
  by (simp add: out_dims_def)

lemma shape_Im2Col:
  "shape (Im2Col x kernel_size stride pad cover_all v)
     = take 2 (shape x) @ kernel_size
         @ out_dims (drop 2 (shape x)) kernel_size stride pad cover_all"
  by (simp add: Im2Col_def Let_def)

lemma elem_at_Im2Col:
  assumes rank: "length (shape x) = 2 + length kernel_size"
    and b: "in_shape (take 2 (shape x)) b" and r: "in_shape kernel_size r"
    and q: "in_shape (out_dims (drop 2 (shape x)) kernel_size stride pad cover_all) q"
  shows "elem_at (Im2Col x kernel_size stride pad cover_all v) (b @ r @ q)
       = (if coords_in_bounds (drop 2 (shape x)) (window_coords stride pad r q)
          then elem_at x (b @ map nat (window_coords stride pad r q)) else v)"
proof -
  have lb: "length b = 2" using b rank by (simp add: in_shape_length)
  have lr: "length r = length kernel_size" using r by (simp add: in_shape_length)
  have "in_shape (take 2 (shape x) @ kernel_size
           @ out_dims (drop 2 (shape x)) kernel_size stride pad cover_all) (b @ r @ q)"
    using b r q rank lb lr by (simp add: in_shape_append in_shape_length)
  then show ?thesis
    using lb lr by (simp add: Im2Col_def Let_def elem_at_tabulate)
qed

lemma prod_list_pos: "0 \<notin> set (ks :: nat list) \<Longrightarrow> 0 < prod_list ks"
  by (induction ks) auto

lemma all_indices_nonempty: "0 \<notin> set ks \<Longrightarrow> all_indices ks \<noteq> []"
  using prod_list_pos [of ks] by (simp flip: length_0_conv)

lemma coords_in_bounds_in_shape:
  "coords_in_bounds dims ys \<Longrightarrow> in_shape dims (map nat ys)"
  by (auto simp: coords_in_bounds_def in_shape_def list_all2_conv_all_nth)

lemma elem_at_mem:
  "well_formed a \<Longrightarrow> in_shape (shape a) idx \<Longrightarrow> elem_at a idx \<in> set (elems a)"
  by (simp add: elem_at_def well_formed_def ravel_less)

lemma in_shape_take_drop_2:
  assumes "2 \<le> length sh" "in_shape (take 2 sh) b" "in_shape (drop 2 sh) y"
  shows "in_shape sh (b @ y)"
proof -
  have "length b = length (take 2 sh)" using assms(2) by (rule in_shape_length)
  then have "in_shape (take 2 sh @ drop 2 sh) (b @ y) = (in_shape (take 2 sh) b \<and> in_shape (drop 2 sh) y)"
    by (rule in_shape_append)
  then show ?thesis using assms by simp
qed

lemma Max_fill:
  fixes g :: "'b \<Rightarrow> 'a::linorder"
  assumes ne: "L \<noteq> []" and low: "\<And>r. r \<in> set L \<Longrightarrow> P r \<Longrightarrow> low \<le> g r"
  shows "Max (set (map (\<lambda>r. if P r then g r else low) L))
       = (if filter P L = [] then low else Max (set (map g (filter P L))))"
proof (cases "filter P L = []")
  case True
  then have "\<forall>r \<in> set L. \<not> P r" by (simp add: filter_empty_conv)
  then have "set (map (\<lambda>r. if P r then g r else low) L) = {low}"
    using ne by (cases L) auto
  then show ?thesis using True by simp
next
  case False
  let ?S = "set (map (\<lambda>r. if P r then g r else low) L)"
  let ?W = "set (map g (filter P L))"
  have "set (filter P L) \<noteq> {}" using False by (simp only: set_empty not_False_eq_True)
  then have Wne: "?W \<noteq> {}" by simp
  have fin: "finite ?W" by simp
  have M: "Max ?W \<in> ?W" using fin Wne by (rule Max_in)
  then obtain r where r: "r \<in> set L" "P r" "g r = Max ?W" by auto
  have "Max ?S = Max ?W"
  proof (rule Max_eqI)
    show "finite ?S" by simp
  next
    fix v assume "v \<in> ?S"
    then obtain t where t: "t \<in> set L" "v = (if P t then g t else low)" by auto
    show "v \<le> Max ?W"
    proof (cases "P t")
      case True
      then have "v \<in> ?W" using t by auto
      then show ?thesis using fin by (rule Max_ge [rotated])
    next
      case False
      then have "v = low" using t by simp
      also have "low \<le> g r" using r(1,2) by (rule low)
      also have "g r = Max ?W" by (rule r(3))
      finally show ?thesis .
    qed
  next
    have "(\<lambda>r. if P r then g r else low) r \<in> (\<lambda>r. if P r then g r else low) ` set L"
      using r(1) by (rule imageI)
    then show "Max ?W \<in> ?S" using r by simp
  qed
  then show ?thesis using False by simp
qed

lemma shape_Max_axes_Im2Col:
  assumes "length (shape x) = 2 + length ks"
  shows "shape (Max_axes (Im2Col x ks st pd ca v) (iota_axes (length ks)))
       = take 2 (shape x) @ out_dims (drop 2 (shape x)) ks st pd ca"
  using assms by (simp add: Max_axes_def shape_Im2Col kept_shape_kernel)

lemma reduce_values_Im2Col:
  assumes rank: "length (shape x) = 2 + length ks"
    and idx: "in_shape (take 2 (shape x) @ out_dims (drop 2 (shape x)) ks st pd ca) idx"
  shows "reduce_values (Im2Col x ks st pd ca v) (iota_axes (length ks)) idx
       = map (\<lambda>r. if coords_in_bounds (drop 2 (shape x)) (window_coords st pd r (drop 2 idx))
                   then elem_at x (take 2 idx @ map nat (window_coords st pd r (drop 2 idx)))
                   else v)
           (all_indices ks)"
proof -
  let ?outs = "out_dims (drop 2 (shape x)) ks st pd ca"
  have l2: "length (take 2 (shape x)) = 2" using rank by simp
  have b: "in_shape (take 2 (shape x)) (take 2 idx)"
    and q: "in_shape ?outs (drop 2 idx)"
    using idx in_shape_split [of "take 2 (shape x)" ?outs idx] l2 by simp_all
  have len: "length idx = 2 + length ?outs"
    using idx l2 by (simp add: in_shape_length del: length_out_dims)
  have "reduce_values (Im2Col x ks st pd ca v) (iota_axes (length ks)) idx
      = map (\<lambda>r. elem_at (Im2Col x ks st pd ca v) (take 2 idx @ r @ drop 2 idx)) (all_indices ks)"
    by (rule reduce_values_kernel [OF shape_Im2Col l2 len])
  also have "\<dots> = map (\<lambda>r. if coords_in_bounds (drop 2 (shape x)) (window_coords st pd r (drop 2 idx))
                   then elem_at x (take 2 idx @ map nat (window_coords st pd r (drop 2 idx)))
                   else v) (all_indices ks)"
  proof (rule map_cong [OF refl])
    fix r assume "r \<in> set (all_indices ks)"
    then have r: "in_shape ks r" by (simp add: set_all_indices)
    show "elem_at (Im2Col x ks st pd ca v) (take 2 idx @ r @ drop 2 idx)
        = (if coords_in_bounds (drop 2 (shape x)) (window_coords st pd r (drop 2 idx))
           then elem_at x (take 2 idx @ map nat (window_coords st pd r (drop 2 idx))) else v)"
      by (rule elem_at_Im2Col [OF rank b r q])
  qed
  finally show ?thesis .
qed

lemma elem_at_Max_axes_Im2Col:
  fixes x :: "'a::linorder Array"
  assumes valid: "valid_pool (shape x) ks st pd" and wf: "well_formed x"
    and low: "\<forall>u \<in> set (elems x). v \<le> u"
    and idx: "in_shape (take 2 (shape x) @ out_dims (drop 2 (shape x)) ks st pd ca) idx"
  shows "elem_at (Max_axes (Im2Col x ks st pd ca v) (iota_axes (length ks))) idx
       = (if window_elems x ks st pd idx = [] then v
          else Max (set (window_elems x ks st pd idx)))"
proof -
  let ?outs = "out_dims (drop 2 (shape x)) ks st pd ca"
  let ?P = "\<lambda>r. coords_in_bounds (drop 2 (shape x)) (window_coords st pd r (drop 2 idx))"
  let ?g = "\<lambda>r. elem_at x (take 2 idx @ map nat (window_coords st pd r (drop 2 idx)))"
  have rank: "length (shape x) = 2 + length ks" using valid by (simp add: valid_pool_def)
  have ne: "all_indices ks \<noteq> []" using valid by (simp add: valid_pool_def all_indices_nonempty)
  have l2: "length (take 2 (shape x)) = 2" using rank by simp
  have b: "in_shape (take 2 (shape x)) (take 2 idx)"
    using idx in_shape_split [of "take 2 (shape x)" ?outs idx] l2 by simp
  have lowg: "\<And>r. r \<in> set (all_indices ks) \<Longrightarrow> ?P r \<Longrightarrow> v \<le> ?g r"
  proof -
    fix r assume "?P r"
    then have "in_shape (drop 2 (shape x)) (map nat (window_coords st pd r (drop 2 idx)))"
      by (rule coords_in_bounds_in_shape)
    then have "in_shape (shape x) (take 2 idx @ map nat (window_coords st pd r (drop 2 idx)))"
      using b rank by (intro in_shape_take_drop_2) simp_all
    then have "?g r \<in> set (elems x)" using wf by (intro elem_at_mem)
    then show "v \<le> ?g r" using low by simp
  qed
  have "elem_at (Max_axes (Im2Col x ks st pd ca v) (iota_axes (length ks))) idx
      = max_list (reduce_values (Im2Col x ks st pd ca v) (iota_axes (length ks)) idx)"
    using idx l2 by (simp add: Max_axes_def shape_Im2Col kept_shape_kernel elem_at_tabulate)
  also have "\<dots> = max_list (map (\<lambda>r. if ?P r then ?g r else v) (all_indices ks))"
    by (simp only: reduce_values_Im2Col [OF rank idx])
  also have "\<dots> = Max (set (map (\<lambda>r. if ?P r then ?g r else v) (all_indices ks)))"
    using ne by (intro max_list_eq_Max) simp
  also have "\<dots> = (if filter ?P (all_indices ks) = [] then v
                    else Max (set (map ?g (filter ?P (all_indices ks)))))"
    using ne lowg by (rule Max_fill)
  finally show ?thesis by (simp add: window_elems_def)
qed

lemma shape_MaxPool_Forward:
  assumes "length (shape x) = 2 + length (mp_kernel_size st)"
  shows "shape (fst (MaxPool_Forward dt st x))
       = take 2 (shape x)
           @ out_dims (drop 2 (shape x)) (mp_kernel_size st) (mp_stride st) (mp_pad st) (mp_cover_all st)"
  using assms by (simp add: MaxPool_Forward_def Let_def shape_Max_axes_Im2Col)

subsection \<open>Average pooling\<close>

lemma sum_list_fill_zero:
  fixes g :: "'b \<Rightarrow> 'a::monoid_add"
  shows "sum_list (map (\<lambda>r. if P r then g r else 0) L) = sum_list (map g (filter P L))"
  by (induction L) auto

lemma shape_Sum_axes_Im2Col:
  assumes "length (shape x) = 2 + length ks"
  shows "shape (Sum_axes (Im2Col x ks st pd ca v) (iota_axes (length ks)))
       = take 2 (shape x) @ out_dims (drop 2 (shape x)) ks st pd ca"
  using assms by (simp add: Sum_axes_def shape_Im2Col kept_shape_kernel)

lemma elem_at_Sum_axes_Im2Col:
  fixes x :: "'a::monoid_add Array"
  assumes rank: "length (shape x) = 2 + length ks"
    and idx: "in_shape (take 2 (shape x) @ out_dims (drop 2 (shape x)) ks st pd ca) idx"
  shows "elem_at (Sum_axes (Im2Col x ks st pd ca 0) (iota_axes (length ks))) idx
       = sum_list (window_elems x ks st pd idx)"
proof -
  have l2: "length (take 2 (shape x)) = 2" using rank by simp
  have "elem_at (Sum_axes (Im2Col x ks st pd ca 0) (iota_axes (length ks))) idx
      = sum_list (reduce_values (Im2Col x ks st pd ca 0) (iota_axes (length ks)) idx)"
    using idx l2 by (simp add: Sum_axes_def shape_Im2Col kept_shape_kernel elem_at_tabulate)
  also have "\<dots> = sum_list (window_elems x ks st pd idx)"
    by (simp only: reduce_values_Im2Col [OF rank idx] sum_list_fill_zero window_elems_def)
  finally show ?thesis .
qed

lemma elem_at_DivideAS:
  "ravel (shape a) idx < length (elems a) \<Longrightarrow> elem_at (DivideAS a c) idx = elem_at a idx div c"
  by (simp add: DivideAS_def elem_at_def)

lemma CountItemsAlongAxes_Im2Col:
  assumes "length (shape x) = 2 + length ks"
  shows "CountItemsAlongAxes (shape (Im2Col x ks st pd ca v)) (iota_axes (length ks)) = prod_list ks"
  using assms by (simp add: CountItemsAlongAxes_def shape_Im2Col reduced_shape_kernel)

lemma well_formed_Sum_axes [simp]: "well_formed (Sum_axes a axes)"
  by (simp add: Sum_axes_def)

subsection \<open>The effective window width\<close>





lemma represents_float_type [simp]: "represents float_type vs"
  by (simp add: represents_def float_type_def list_all_iff)



subsection \<open>Outer products\<close>









lemma shape_Reshape [simp]: "shape (Reshape a sh) = sh"
  by (simp add: Reshape_def)

lemma elems_Reshape [simp]: "elems (Reshape a sh) = elems a"
  by (simp add: Reshape_def)


lemma shape_Elementwise [simp]: "shape (Elementwise f sh) = sh"
  by (simp add: Elementwise_def)

lemma well_formed_Elementwise [simp]: "well_formed (Elementwise f sh)"
  by (simp add: Elementwise_def well_formed_def)









lemma shape_BroadcastTo [simp]: "shape (BroadcastTo W sh) = sh"
  by (simp add: BroadcastTo_def)

lemma well_formed_BroadcastTo [simp]: "well_formed (BroadcastTo W sh)"
  by (simp add: BroadcastTo_def)

lemma shape_Divide [simp]: "shape (Divide a b) = shape a"
  by (simp add: Divide_def)







subsection \<open>Max pooling: the backward pass\<close>

lemma fold_mult_prod_list: "fold (*) (ks :: nat list) a = a * prod_list ks"
  by (induction ks arbitrary: a) (auto simp: algebra_simps)

lemma shape_ArgMax_Im2Col:
  assumes "length (shape x) = 2 + length ks"
  shows "shape (ArgMax (Im2Col x ks st pd ca v) (iota_axes (length ks)))
       = take 2 (shape x) @ out_dims (drop 2 (shape x)) ks st pd ca"
  using assms by (simp add: ArgMax_def shape_Im2Col kept_shape_kernel)

lemma well_formed_ArgMax [simp]: "well_formed (ArgMax a axes)"
  by (simp add: ArgMax_def)

lemma elem_at_ArgMax_Im2Col:
  assumes rank: "length (shape x) = 2 + length ks"
    and idx: "in_shape (take 2 (shape x) @ out_dims (drop 2 (shape x)) ks st pd ca) idx"
  shows "elem_at (ArgMax (Im2Col x ks st pd ca v) (iota_axes (length ks))) idx
       = argmax_list (reduce_values (Im2Col x ks st pd ca v) (iota_axes (length ks)) idx)"
  using idx rank by (simp add: ArgMax_def shape_Im2Col kept_shape_kernel elem_at_tabulate)

lemma length_reduce_values_Im2Col:
  assumes rank: "length (shape x) = 2 + length ks"
    and idx: "in_shape (take 2 (shape x) @ out_dims (drop 2 (shape x)) ks st pd ca) idx"
  shows "length (reduce_values (Im2Col x ks st pd ca v) (iota_axes (length ks)) idx) = prod_list ks"
  by (simp add: reduce_values_Im2Col [OF rank idx])

lemma elem_at_ArgMax_less:
  assumes valid: "valid_pool (shape x) ks st pd"
    and idx: "in_shape (take 2 (shape x) @ out_dims (drop 2 (shape x)) ks st pd ca) idx"
  shows "elem_at (ArgMax (Im2Col x ks st pd ca v) (iota_axes (length ks))) idx < prod_list ks"
proof -
  have rank: "length (shape x) = 2 + length ks" using valid by (simp add: valid_pool_def)
  have pos: "0 < prod_list ks" using valid by (simp add: valid_pool_def prod_list_pos)
  let ?vs = "reduce_values (Im2Col x ks st pd ca v) (iota_axes (length ks)) idx"
  have len: "length ?vs = prod_list ks" using rank idx by (rule length_reduce_values_Im2Col)
  then have "?vs \<noteq> []" using pos by auto
  then have "argmax_list ?vs < length ?vs" by (rule argmax_list_props(1))
  then show ?thesis by (simp only: elem_at_ArgMax_Im2Col [OF rank idx] len)
qed

lemma elems_nth_elem_at:
  "q < prod_list (shape a) \<Longrightarrow> elems a ! q = elem_at a (unravel (shape a) q)"
  by (simp add: elem_at_unravel)

lemma Arange_steps:
  assumes "0 < k"
  shows "shape (Arange 0 (m * k) k) = [m]" and "length (elems (Arange 0 (m * k) k)) = m"
    and "q < m \<Longrightarrow> elems (Arange 0 (m * k) k) ! q = q * k"
proof -
  obtain k' where k': "k = Suc k'" using assms by (cases k) auto
  have e: "m * k + k - Suc 0 = k' + m * k" by (simp add: k')
  have "k' < k" using k' by simp
  have "(k' + m * k) div k = k' div k + m"
    using assms by simp
  also have "k' div k = 0" using \<open>k' < k\<close> by simp
  finally have "(k' + m * k) div k = m" by simp
  then have n: "(m * k + k - Suc 0) div k = m" by (simp only: e)
  show "shape (Arange 0 (m * k) k) = [m]" by (simp add: Arange_def Let_def n)
  show "length (elems (Arange 0 (m * k) k)) = m" by (simp add: Arange_def Let_def n)
  show "q < m \<Longrightarrow> elems (Arange 0 (m * k) k) ! q = q * k"
    by (simp add: Arange_def Let_def n)
qed

lemma shape_Add [simp]: "shape (Add a b) = shape a"
  by (simp add: Add_def)

lemma elems_Add_nth:
  "q < length (elems a) \<Longrightarrow> q < length (elems b) \<Longrightarrow> elems (Add a b) ! q = elems a ! q + elems b ! q"
  by (simp add: Add_def)

lemma length_elems_Add [simp]: "length (elems (Add a b)) = min (length (elems a)) (length (elems b))"
  by (simp add: Add_def)

lemma slice_bounds:
  fixes r q k m :: nat
  assumes "r < k" "q < m"
  shows "q * k \<le> r + q * k" "r + q * k < (q + 1) * k" "(q + 1) * k \<le> m * k"
proof -
  show "q * k \<le> r + q * k" by simp
  show "r + q * k < (q + 1) * k" using assms(1) by simp
  have "q + 1 \<le> m" using assms(2) by simp
  then show "(q + 1) * k \<le> m * k" by (rule mult_le_mono1)
qed

lemma slice_disjoint:
  fixes r r' q q' k :: nat
  assumes "r < k" "r' < k" "r + q * k = r' + q' * k"
  shows "q = q' \<and> r = r'"
proof -
  have "(r + q * k) div k = q" "(r' + q' * k) div k = q'" using assms(1,2) by simp_all
  then have "q = q'" using assms(3) by simp
  then show ?thesis using assms(3) by simp
qed

lemma scatter_fold:
  fixes b :: "'a::monoid_add list"
  assumes inj: "\<And>q q'. q < n \<Longrightarrow> q' < n \<Longrightarrow> ps ! q = ps ! q' \<Longrightarrow> q = q'"
    and rng: "\<And>q. q < n \<Longrightarrow> ps ! q < L"
  shows "m \<le> n \<Longrightarrow>
     length (fold (\<lambda>q acc. acc[ps ! q := acc ! (ps ! q) + b ! q]) [0..<m] (replicate L 0)) = L
   \<and> (\<forall>q < m. fold (\<lambda>q acc. acc[ps ! q := acc ! (ps ! q) + b ! q]) [0..<m] (replicate L 0) ! (ps ! q) = b ! q)
   \<and> (\<forall>p < L. (\<forall>q < m. ps ! q \<noteq> p) \<longrightarrow>
         fold (\<lambda>q acc. acc[ps ! q := acc ! (ps ! q) + b ! q]) [0..<m] (replicate L 0) ! p = 0)"
proof (induction m)
  case 0
  then show ?case by simp
next
  case (Suc m)
  let ?f = "\<lambda>q acc. acc[ps ! q := acc ! (ps ! q) + b ! q]"
  let ?r = "fold ?f [0..<m] (replicate L 0)"
  have m: "m < n" using Suc.prems by simp
  have IH: "length ?r = L" "\<And>q. q < m \<Longrightarrow> ?r ! (ps ! q) = b ! q"
    "\<And>p. p < L \<Longrightarrow> (\<forall>q < m. ps ! q \<noteq> p) \<Longrightarrow> ?r ! p = 0"
    using Suc.IH m by simp_all
  have step: "fold ?f [0..<Suc m] (replicate L 0) = ?r[ps ! m := ?r ! (ps ! m) + b ! m]"
    by simp
  have fresh: "\<forall>q < m. ps ! q \<noteq> ps ! m"
    using inj [of _ m] m by (metis less_trans nat_neq_iff)
  have z: "?r ! (ps ! m) = 0" using rng [OF m] fresh by (intro IH(3)) simp_all
  have 1: "length (?r[ps ! m := ?r ! (ps ! m) + b ! m]) = L" using IH(1) by simp
  have 2: "\<forall>q < Suc m. (?r[ps ! m := ?r ! (ps ! m) + b ! m]) ! (ps ! q) = b ! q"
  proof (intro allI impI)
    fix q assume q: "q < Suc m"
    show "(?r[ps ! m := ?r ! (ps ! m) + b ! m]) ! (ps ! q) = b ! q"
    proof (cases "q = m")
      case True
      then show ?thesis using rng [OF m] IH(1) z by simp
    next
      case False
      then have qm: "q < m" using q by simp
      then have "ps ! q \<noteq> ps ! m" using fresh by simp
      then show ?thesis using IH(2) [OF qm] by simp
    qed
  qed
  have 3: "\<forall>p < L. (\<forall>q < Suc m. ps ! q \<noteq> p) \<longrightarrow> (?r[ps ! m := ?r ! (ps ! m) + b ! m]) ! p = 0"
  proof (intro allI impI)
    fix p assume p: "p < L" and no: "\<forall>q < Suc m. ps ! q \<noteq> p"
    then have "ps ! m \<noteq> p" by simp
    moreover have "?r ! p = 0" using p no by (intro IH(3)) simp_all
    ultimately show "(?r[ps ! m := ?r ! (ps ! m) + b ! m]) ! p = 0" by simp
  qed
  show ?case unfolding step using 1 2 3 by blast
qed

lemma AddAt_Zeros:
  fixes b :: "'a::monoid_add Array"
  assumes inj: "\<forall>q < n. \<forall>q' < n. elems ps ! q = elems ps ! q' \<longrightarrow> q = q'"
    and rng: "\<forall>q < n. elems ps ! q < L"
    and len: "length (elems ps) = n"
  shows "shape (AddAt (Zeros [L]) ps b) = [L]"
    and "length (elems (AddAt (Zeros [L]) ps b)) = L"
    and "q < n \<Longrightarrow> elems (AddAt (Zeros [L]) ps b) ! (elems ps ! q) = elems b ! q"
    and "p < L \<Longrightarrow> (\<forall>q < n. elems ps ! q \<noteq> p) \<Longrightarrow> elems (AddAt (Zeros [L]) ps b) ! p = 0"
proof -
  have inj': "\<And>q q'. q < n \<Longrightarrow> q' < n \<Longrightarrow> elems ps ! q = elems ps ! q' \<Longrightarrow> q = q'"
    using inj by blast
  have rng': "\<And>q. q < n \<Longrightarrow> elems ps ! q < L" using rng by blast
  note s = scatter_fold [of n "elems ps" L n "elems b", OF inj' rng' le_refl]
  have e: "elems (AddAt (Zeros [L]) ps b)
      = fold (\<lambda>q acc. acc[elems ps ! q := acc ! (elems ps ! q) + elems b ! q]) [0..<n] (replicate L 0)"
    by (simp add: AddAt_def Zeros_def len)
  show "shape (AddAt (Zeros [L]) ps b) = [L]" by (simp add: AddAt_def Zeros_def)
  show "length (elems (AddAt (Zeros [L]) ps b)) = L" unfolding e using s by blast
  show "q < n \<Longrightarrow> elems (AddAt (Zeros [L]) ps b) ! (elems ps ! q) = elems b ! q"
    unfolding e using s by blast
  show "p < L \<Longrightarrow> (\<forall>q < n. elems ps ! q \<noteq> p) \<Longrightarrow> elems (AddAt (Zeros [L]) ps b) ! p = 0"
    unfolding e using s by blast
qed

lemma MaxPool_Forward_state:
  "snd (MaxPool_Forward dt st x)
     = st\<lparr>mp_col := Some (Im2Col x (mp_kernel_size st) (mp_stride st) (mp_pad st) (mp_cover_all st)
                            (GetLowestOrInf dt)),
          mp_axes := iota_axes (length (mp_kernel_size st)), mp_x := Some x\<rparr>"
  by (simp add: MaxPool_Forward_def Let_def)

lemma MaxPool_Backward_eq:
  fixes gout :: "'a::{linorder,monoid_add} Array"
  assumes col: "mp_col st = Some col" and x: "mp_x st = Some x"
  shows "MaxPool_Backward st gout
       = (if shape (ArgMax col (mp_axes st)) \<noteq> shape gout then Inl AssertionFailed
          else Inr (Col2Im
                      (Transpose (Reshape (gcol_of (ArgMax col (mp_axes st)) (prod_list (mp_kernel_size st)) gout)
                                    (shape gout @ mp_kernel_size st))
                         (GetSwapSpatialDimensionsAxes (length (mp_kernel_size st))))
                      (mp_stride st) (mp_pad st) (drop 2 (shape x)),
                    st\<lparr>mp_indices := Some (ArgMax col (mp_axes st)),
                       mp_offset := Some (Arange 0 (GetTotalSize (ArgMax col (mp_axes st))
                                                      * prod_list (mp_kernel_size st))
                                            (prod_list (mp_kernel_size st)))\<rparr>))"
  by (simp add: MaxPool_Backward_def col x Let_def gcol_of_def fold_mult_prod_list)

lemma scatter_positions:
  fixes indices :: "nat Array"
  assumes wf: "length (elems indices) = GetTotalSize indices" and K: "0 < K"
    and Q: "Q < GetTotalSize indices"
  shows "elems (Add (Reshape indices [GetTotalSize indices])
                  (Arange 0 (GetTotalSize indices * K) K)) ! Q = elems indices ! Q + Q * K"
    and "length (elems (Add (Reshape indices [GetTotalSize indices])
                  (Arange 0 (GetTotalSize indices * K) K))) = GetTotalSize indices"
  using assms by (simp_all add: elems_Add_nth Arange_steps)

subsection \<open>The axes of the swap\<close>

lemma swap_fold_nth:
  "2 \<le> m \<Longrightarrow> m \<le> n + 2 \<Longrightarrow>
     length (fold (\<lambda>i axes. axes[i := n + i, n + i := i]) [2..<m]
               ((replicate (2 + 2 * n) 0)[0 := 0, 1 := 1])) = 2 + 2 * n
   \<and> (\<forall>j < 2 + 2 * n.
        fold (\<lambda>i axes. axes[i := n + i, n + i := i]) [2..<m]
               ((replicate (2 + 2 * n) 0)[0 := 0, 1 := 1]) ! j
          = (if j < 2 then j else if j < m then n + j
             else if n + 2 \<le> j \<and> j < n + m then j - n else 0))"
proof (induction m)
  case 0
  then show ?case by simp
next
  case (Suc m)
  let ?f = "\<lambda>i axes. axes[i := n + i, n + i := i]"
  let ?init = "(replicate (2 + 2 * n) (0::nat))[0 := 0, 1 := 1]"
  show ?case
  proof (cases "m < 2")
    case True
    then have m: "Suc m = 2" using Suc.prems by simp
    have "fold ?f [2..<Suc m] ?init = ?init" using m by simp
    moreover have "length ?init = 2 + 2 * n" by simp
    moreover have "\<forall>j < 2 + 2 * n. ?init ! j
          = (if j < 2 then j else if j < Suc m then n + j
             else if n + 2 \<le> j \<and> j < n + Suc m then j - n else 0)"
      using m by (auto simp: nth_list_update nth_Cons' dest: less_2_cases)
    ultimately show ?thesis by simp
  next
    case False
    then have m2: "2 \<le> m" by simp
    have mn: "m \<le> n + 2" "m < n + 2" using Suc.prems by simp_all
    let ?A = "fold ?f [2..<m] ?init"
    have IH: "length ?A = 2 + 2 * n"
      "\<And>j. j < 2 + 2 * n \<Longrightarrow> ?A ! j = (if j < 2 then j else if j < m then n + j
             else if n + 2 \<le> j \<and> j < n + m then j - n else 0)"
      using Suc.IH [OF m2 mn(1)] by simp_all
    have step: "fold ?f [2..<Suc m] ?init = ?A[m := n + m, n + m := m]"
      using m2 by simp
    have 1: "length (?A[m := n + m, n + m := m]) = 2 + 2 * n" using IH(1) by simp
    have 2: "\<forall>j < 2 + 2 * n. (?A[m := n + m, n + m := m]) ! j
          = (if j < 2 then j else if j < Suc m then n + j
             else if n + 2 \<le> j \<and> j < n + Suc m then j - n else 0)"
    proof (intro allI impI)
      fix j assume j: "j < 2 + 2 * n"
      show "(?A[m := n + m, n + m := m]) ! j
          = (if j < 2 then j else if j < Suc m then n + j
             else if n + 2 \<le> j \<and> j < n + Suc m then j - n else 0)"
        using j m2 mn IH(1) IH(2) [OF j] by (auto simp: nth_list_update)
    qed
    show ?thesis unfolding step using 1 2 by blast
  qed
qed

lemma length_GetSwapSpatialDimensionsAxes [simp]:
  "length (GetSwapSpatialDimensionsAxes n) = 2 + 2 * n"
  using swap_fold_nth [of "n + 2" n] by (simp add: GetSwapSpatialDimensionsAxes_def)

lemma nth_GetSwapSpatialDimensionsAxes:
  "j < 2 + 2 * n \<Longrightarrow>
     GetSwapSpatialDimensionsAxes n ! j = (if j < 2 then j else if j < n + 2 then n + j else j - n)"
  using swap_fold_nth [of "n + 2" n] by (auto simp: GetSwapSpatialDimensionsAxes_def)

lemma GetSwapSpatialDimensionsAxes_eq:
  "GetSwapSpatialDimensionsAxes n = [0, 1] @ [n + 2..<2 * n + 2] @ [2..<n + 2]"
proof -
  define xs where "xs = [0 :: nat, 1]"
  define ys where "ys = [n + 2..<2 * n + 2]"
  define zs where "zs = [2..<n + 2]"
  have lx: "length xs = 2" by (simp add: xs_def)
  have ly: "length ys = n" and lz: "length zs = n"
    unfolding ys_def zs_def by (simp_all only: length_upt)
  have nx: "\<And>i. i < 2 \<Longrightarrow> xs ! i = i"
    unfolding xs_def by (auto dest!: less_2_cases)
  have ny: "\<And>i. i < n \<Longrightarrow> ys ! i = n + 2 + i"
    unfolding ys_def by (rule nth_upt) simp
  have nz: "\<And>i. i < n \<Longrightarrow> zs ! i = 2 + i"
    unfolding zs_def by (rule nth_upt) simp
  have "GetSwapSpatialDimensionsAxes n = xs @ ys @ zs"
  proof (rule nth_equalityI)
    show "length (GetSwapSpatialDimensionsAxes n) = length (xs @ ys @ zs)"
      by (simp add: lx ly lz)
  next
    fix j assume "j < length (GetSwapSpatialDimensionsAxes n)"
    then have j: "j < 2 + 2 * n" by simp
    consider "j < 2" | "2 \<le> j" "j < n + 2" | "n + 2 \<le> j" by linarith
    then show "GetSwapSpatialDimensionsAxes n ! j = (xs @ ys @ zs) ! j"
    proof cases
      case 1
      then have "(xs @ ys @ zs) ! j = xs ! j" by (simp add: nth_append lx)
      also have "\<dots> = j" using 1 by (rule nx)
      finally show ?thesis unfolding nth_GetSwapSpatialDimensionsAxes [OF j] using 1 by simp
    next
      case 2
      then have "\<not> j < 2" "j - 2 < n" by arith+
      then have "(xs @ ys @ zs) ! j = ys ! (j - 2)" by (simp add: nth_append lx ly)
      also have "\<dots> = n + 2 + (j - 2)" using 2 by (intro ny) simp
      finally show ?thesis unfolding nth_GetSwapSpatialDimensionsAxes [OF j] using 2 by simp
    next
      case 3
      then have "\<not> j < 2" "\<not> j - 2 < n" by arith+
      then have "(xs @ ys @ zs) ! j = zs ! (j - 2 - n)" by (simp add: nth_append lx ly)
      also have "\<dots> = 2 + (j - 2 - n)" using 3 j by (intro nz) simp
      finally show ?thesis unfolding nth_GetSwapSpatialDimensionsAxes [OF j] using 3 by simp
    qed
  qed
  then show ?thesis by (simp only: xs_def ys_def zs_def)
qed

lemma index_of_nth: "distinct xs \<Longrightarrow> j < length xs \<Longrightarrow> index_of xs (xs ! j) = j"
proof (induction xs arbitrary: j)
  case Nil
  then show ?case by simp
next
  case (Cons a xs)
  show ?case
  proof (cases j)
    case 0
    then show ?thesis by simp
  next
    case (Suc i)
    then have "xs ! i \<in> set xs" using Cons.prems by simp
    then have "a \<noteq> xs ! i" using Cons.prems by auto
    then show ?thesis using Suc Cons by simp
  qed
qed

lemma distinct_GetSwapSpatialDimensionsAxes: "distinct (GetSwapSpatialDimensionsAxes n)"
  unfolding distinct_conv_nth
proof (intro allI impI)
  fix i j
  assume "i < length (GetSwapSpatialDimensionsAxes n)" "j < length (GetSwapSpatialDimensionsAxes n)"
    and ne: "i \<noteq> j"
  then have i: "i < 2 + 2 * n" and j: "j < 2 + 2 * n" by simp_all
  show "GetSwapSpatialDimensionsAxes n ! i \<noteq> GetSwapSpatialDimensionsAxes n ! j"
    unfolding nth_GetSwapSpatialDimensionsAxes [OF i] nth_GetSwapSpatialDimensionsAxes [OF j]
    using i j ne by (auto split: if_splits)
qed

lemma index_of_GetSwapSpatialDimensionsAxes:
  assumes m: "m < 2 + 2 * n"
  shows "index_of (GetSwapSpatialDimensionsAxes n) m
       = (if m < 2 then m else if m < n + 2 then n + m else m - n)"
proof -
  let ?s = "if m < 2 then m else if m < n + 2 then n + m else m - n"
  have s: "?s < 2 + 2 * n" using m by auto
  have "GetSwapSpatialDimensionsAxes n ! ?s = m"
    unfolding nth_GetSwapSpatialDimensionsAxes [OF s] using m by auto
  then have "index_of (GetSwapSpatialDimensionsAxes n) m
      = index_of (GetSwapSpatialDimensionsAxes n) (GetSwapSpatialDimensionsAxes n ! ?s)"
    by simp
  also have "\<dots> = ?s"
    using s by (intro index_of_nth distinct_GetSwapSpatialDimensionsAxes) simp
  finally show ?thesis .
qed

lemma nth_map_upt_0: "m < L \<Longrightarrow> map f [0..<L] ! m = f m"
  by simp

lemma nth_append3:
  assumes "length a = 2" "length b = n"
  shows "(a @ b @ c) ! j = (if j < 2 then a ! j else if j < n + 2 then b ! (j - 2) else c ! (j - 2 - n))"
proof -
  consider "j < 2" | "2 \<le> j" "j < n + 2" | "n + 2 \<le> j" by linarith
  then show ?thesis
  proof cases
    case 1
    then show ?thesis using assms by (simp add: nth_append)
  next
    case 2
    then have "\<not> j < 2" "j - 2 < n" by arith+
    then show ?thesis using assms 2 by (simp add: nth_append)
  next
    case 3
    then have "\<not> j < 2" "\<not> j - 2 < n" "\<not> j < n + 2" by arith+
    then show ?thesis using assms by (simp add: nth_append)
  qed
qed

lemma swap_index:
  assumes b: "length b = 2" and c: "length c = n" and a: "length a = n"
  shows "map (\<lambda>m. (b @ c @ a) ! index_of (GetSwapSpatialDimensionsAxes n) m)
           [0..<length (GetSwapSpatialDimensionsAxes n)] = b @ a @ c"
proof (rule nth_equalityI)
  have l: "length (map (\<lambda>m. (b @ c @ a) ! index_of (GetSwapSpatialDimensionsAxes n) m)
           [0..<length (GetSwapSpatialDimensionsAxes n)]) = 2 + 2 * n"
    by (simp only: length_map length_upt length_GetSwapSpatialDimensionsAxes diff_zero)
  show "length (map (\<lambda>m. (b @ c @ a) ! index_of (GetSwapSpatialDimensionsAxes n) m)
           [0..<length (GetSwapSpatialDimensionsAxes n)]) = length (b @ a @ c)"
    unfolding l using assms by simp
next
  have l: "length (map (\<lambda>m. (b @ c @ a) ! index_of (GetSwapSpatialDimensionsAxes n) m)
           [0..<length (GetSwapSpatialDimensionsAxes n)]) = 2 + 2 * n"
    by (simp only: length_map length_upt length_GetSwapSpatialDimensionsAxes diff_zero)
  fix m assume "m < length (map (\<lambda>m. (b @ c @ a) ! index_of (GetSwapSpatialDimensionsAxes n) m)
           [0..<length (GetSwapSpatialDimensionsAxes n)])"
  then have m: "m < 2 + 2 * n" by (simp only: l)
  have "m < length (GetSwapSpatialDimensionsAxes n)"
    using m by (simp only: length_GetSwapSpatialDimensionsAxes)
  then have "map (\<lambda>m. (b @ c @ a) ! index_of (GetSwapSpatialDimensionsAxes n) m)
           [0..<length (GetSwapSpatialDimensionsAxes n)] ! m
      = (b @ c @ a) ! index_of (GetSwapSpatialDimensionsAxes n) m"
    by (rule nth_map_upt_0)
  also have "\<dots> = (b @ c @ a) ! (if m < 2 then m else if m < n + 2 then n + m else m - n)"
    by (simp only: index_of_GetSwapSpatialDimensionsAxes [OF m])
  also have "\<dots> = (b @ a @ c) ! m"
    unfolding nth_append3 [OF b c] nth_append3 [OF b a] using m by auto
  finally show "map (\<lambda>m. (b @ c @ a) ! index_of (GetSwapSpatialDimensionsAxes n) m)
           [0..<length (GetSwapSpatialDimensionsAxes n)] ! m = (b @ a @ c) ! m" .
qed

lemma swap_shape:
  assumes b: "length bc = 2" and a: "length as = n" and c: "length cs = n"
  shows "map (\<lambda>j. (bc @ as @ cs) ! j) (GetSwapSpatialDimensionsAxes n) = bc @ cs @ as"
proof (rule nth_equalityI)
  show "length (map (\<lambda>j. (bc @ as @ cs) ! j) (GetSwapSpatialDimensionsAxes n)) = length (bc @ cs @ as)"
    using assms by simp
next
  fix j assume "j < length (map (\<lambda>j. (bc @ as @ cs) ! j) (GetSwapSpatialDimensionsAxes n))"
  then have j: "j < 2 + 2 * n" by simp
  have "map (\<lambda>j. (bc @ as @ cs) ! j) (GetSwapSpatialDimensionsAxes n) ! j
      = (bc @ as @ cs) ! (if j < 2 then j else if j < n + 2 then n + j else j - n)"
    using j by (simp add: nth_GetSwapSpatialDimensionsAxes)
  also have "\<dots> = (bc @ cs @ as) ! j"
    unfolding nth_append3 [OF b a] nth_append3 [OF b c] using j by auto
  finally show "map (\<lambda>j. (bc @ as @ cs) ! j) (GetSwapSpatialDimensionsAxes n) ! j = (bc @ cs @ as) ! j" .
qed

lemma Transpose_swap:
  assumes sh: "shape G = bc @ as @ cs" and bc: "length bc = 2"
    and as: "length as = n" and cs: "length cs = n"
  shows "shape (Transpose G (GetSwapSpatialDimensionsAxes n)) = bc @ cs @ as"
    and "well_formed (Transpose G (GetSwapSpatialDimensionsAxes n))"
    and "in_shape bc b \<Longrightarrow> in_shape cs c \<Longrightarrow> in_shape as a \<Longrightarrow>
           elem_at (Transpose G (GetSwapSpatialDimensionsAxes n)) (b @ c @ a) = elem_at G (b @ a @ c)"
proof -
  have s: "map (\<lambda>j. shape G ! j) (GetSwapSpatialDimensionsAxes n) = bc @ cs @ as"
    unfolding sh using bc as cs by (rule swap_shape)
  show "shape (Transpose G (GetSwapSpatialDimensionsAxes n)) = bc @ cs @ as"
    by (simp add: Transpose_def s)
  show "well_formed (Transpose G (GetSwapSpatialDimensionsAxes n))"
    by (simp add: Transpose_def)
  assume b: "in_shape bc b" and c: "in_shape cs c" and a: "in_shape as a"
  have lb: "length b = 2" and lc: "length c = n" and la: "length a = n"
    using b c a bc cs as by (simp_all add: in_shape_length)
  have "in_shape (bc @ cs @ as) (b @ c @ a)"
    using b c a lb lc bc cs by (simp add: in_shape_append)
  then have "elem_at (Transpose G (GetSwapSpatialDimensionsAxes n)) (b @ c @ a)
      = elem_at G (map (\<lambda>m. (b @ c @ a) ! index_of (GetSwapSpatialDimensionsAxes n) m)
                     [0..<length (GetSwapSpatialDimensionsAxes n)])"
    by (simp add: Transpose_def s elem_at_tabulate)
  then show "elem_at (Transpose G (GetSwapSpatialDimensionsAxes n)) (b @ c @ a) = elem_at G (b @ a @ c)"
    by (simp only: swap_index [OF lb lc la])
qed

subsection \<open>The gradient buffer\<close>

lemma gcol_of_props:
  fixes gout :: "'a::monoid_add Array"
  assumes wf: "length (elems indices) = GetTotalSize indices" and K: "0 < K"
    and less': "\<forall>q < GetTotalSize indices. elems indices ! q < K"
  shows "shape (gcol_of indices K gout) = [GetTotalSize indices * K]"
    and "length (elems (gcol_of indices K gout)) = GetTotalSize indices * K"
    and "Q < GetTotalSize indices \<Longrightarrow> r < K \<Longrightarrow>
           elems (gcol_of indices K gout) ! (Q * K + r)
             = (if r = elems indices ! Q then elems gout ! Q else 0)"
proof -
  let ?O = "GetTotalSize indices"
  let ?pos = "Add (Reshape indices [?O]) (Arange 0 (?O * K) K)"
  have less: "\<And>q. q < GetTotalSize indices \<Longrightarrow> elems indices ! q < K"
    using less' by blast
  have pos: "\<And>q. q < ?O \<Longrightarrow> elems ?pos ! q = elems indices ! q + q * K"
    using wf K by (rule scatter_positions(1))
  have len: "length (elems ?pos) = ?O" using wf K by (simp add: Arange_steps)
  have inj: "\<forall>q < ?O. \<forall>q' < ?O. elems ?pos ! q = elems ?pos ! q' \<longrightarrow> q = q'"
  proof (intro allI impI)
    fix q q' assume q: "q < ?O" and q': "q' < ?O" and e: "elems ?pos ! q = elems ?pos ! q'"
    then have "elems indices ! q + q * K = elems indices ! q' + q' * K"
      by (simp only: pos)
    from slice_disjoint [OF less [OF q] less [OF q'] this] show "q = q'" by simp
  qed
  have rng: "\<forall>q < ?O. elems ?pos ! q < ?O * K"
  proof (intro allI impI)
    fix q assume q: "q < ?O"
    note sb = slice_bounds [OF less [OF q] q]
    show "elems ?pos ! q < ?O * K" unfolding pos [OF q] using sb(2,3) by (rule less_le_trans)
  qed
  have g: "gcol_of indices K gout = AddAt (Zeros [?O * K]) ?pos (Reshape gout [?O])"
    by (simp add: gcol_of_def Let_def)
  note A = AddAt_Zeros [where n = ?O and ps = ?pos and L = "?O * K" and b = "Reshape gout [?O]",
      OF inj rng len]
  show "shape (gcol_of indices K gout) = [?O * K]" unfolding g by (rule A(1))
  show "length (elems (gcol_of indices K gout)) = ?O * K" unfolding g by (rule A(2))
  assume Q: "Q < ?O" and r: "r < K"
  show "elems (gcol_of indices K gout) ! (Q * K + r)
             = (if r = elems indices ! Q then elems gout ! Q else 0)"
  proof (cases "r = elems indices ! Q")
    case True
    then have "Q * K + r = elems ?pos ! Q" using pos [OF Q] by simp
    then show ?thesis unfolding g using A(3) [OF Q] True by simp
  next
    case False
    have "Q * K + r < ?O * K"
      using slice_bounds(2,3) [OF r Q] by (simp add: add.commute)
    moreover have "\<forall>q < ?O. elems ?pos ! q \<noteq> Q * K + r"
    proof (intro allI impI notI)
      fix q assume q: "q < ?O" and e: "elems ?pos ! q = Q * K + r"
      then have "elems indices ! q + q * K = r + Q * K" using pos [OF q] by simp
      from slice_disjoint [OF less [OF q] r this] False show False by blast
    qed
    ultimately have "elems (AddAt (Zeros [?O * K]) ?pos (Reshape gout [?O])) ! (Q * K + r) = 0"
      by (rule A(4))
    then show ?thesis unfolding g using False by simp
  qed
qed

lemma elem_at_Reshape_append:
  assumes a: "in_shape s1 a" and b: "in_shape s2 b"
  shows "elem_at (Reshape G (s1 @ s2)) (a @ b) = elems G ! (ravel s1 a * prod_list s2 + ravel s2 b)"
  using a by (simp add: elem_at_def ravel_append in_shape_length)

subsection \<open>Sums over the indices of a shape\<close>

lemma in_shape_append_image:
  "{idx. in_shape (s1 @ s2) idx}
     = (\<lambda>(a, b). a @ b) ` ({a. in_shape s1 a} \<times> {b. in_shape s2 b})"
proof (intro set_eqI iffI)
  fix idx assume "idx \<in> {idx. in_shape (s1 @ s2) idx}"
  then have "in_shape s1 (take (length s1) idx)" "in_shape s2 (drop (length s1) idx)"
    by (simp_all add: in_shape_split)
  moreover have "idx = take (length s1) idx @ drop (length s1) idx" by simp
  ultimately show "idx \<in> (\<lambda>(a, b). a @ b) ` ({a. in_shape s1 a} \<times> {b. in_shape s2 b})"
    by (metis (mono_tags, lifting) SigmaI image_eqI mem_Collect_eq old.prod.case)
next
  fix idx assume "idx \<in> (\<lambda>(a, b). a @ b) ` ({a. in_shape s1 a} \<times> {b. in_shape s2 b})"
  then obtain a b where "idx = a @ b" "in_shape s1 a" "in_shape s2 b" by auto
  then show "idx \<in> {idx. in_shape (s1 @ s2) idx}"
    by (simp add: in_shape_append in_shape_length)
qed

lemma sum_in_shape_append:
  fixes f :: "nat list \<Rightarrow> 'a::comm_monoid_add"
  shows "(\<Sum>idx \<in> {idx. in_shape (s1 @ s2) idx}. f idx)
       = (\<Sum>a \<in> {a. in_shape s1 a}. \<Sum>b \<in> {b. in_shape s2 b}. f (a @ b))"
proof -
  have inj: "inj_on (\<lambda>(a, b). a @ b) ({a. in_shape s1 a} \<times> {b. in_shape s2 b})"
    by (rule inj_onI) (auto dest!: in_shape_length)
  have "(\<Sum>idx \<in> {idx. in_shape (s1 @ s2) idx}. f idx)
      = (\<Sum>p \<in> {a. in_shape s1 a} \<times> {b. in_shape s2 b}. f ((\<lambda>(a, b). a @ b) p))"
    unfolding in_shape_append_image using inj by (simp add: sum.reindex)
  also have "\<dots> = (\<Sum>a \<in> {a. in_shape s1 a}. \<Sum>b \<in> {b. in_shape s2 b}. f (a @ b))"
    by (simp add: sum.cartesian_product case_prod_unfold)
  finally show ?thesis .
qed

lemma sum_delta_ravel:
  fixes g :: "'a::comm_monoid_add"
  assumes "i < prod_list ks"
  shows "(\<Sum>r \<in> {r. in_shape ks r}. if P r \<and> ravel ks r = i then g else 0)
       = (if P (unravel ks i) then g else 0)"
proof -
  have u: "in_shape ks (unravel ks i)" using assms by (rule in_shape_unravel)
  have "\<And>r. in_shape ks r \<Longrightarrow> (ravel ks r = i) = (r = unravel ks i)"
    using assms by (auto simp: unravel_ravel ravel_unravel)
  then have "(\<Sum>r \<in> {r. in_shape ks r}. if P r \<and> ravel ks r = i then g else 0)
      = (\<Sum>r \<in> {r. in_shape ks r}. if r = unravel ks i then (if P (unravel ks i) then g else 0) else 0)"
    by (intro sum.cong refl) auto
  also have "\<dots> = (if P (unravel ks i) then g else 0)"
    using u by (simp add: sum.delta')
  finally show ?thesis .
qed

lemma backward_chain:
  fixes x gout :: "'a::{linorder,comm_monoid_add} Array" and low :: 'a
  assumes valid: "valid_pool (shape x) ks st pd"
    and gsh: "shape gout = take 2 (shape x) @ out_dims (drop 2 (shape x)) ks st pd ca"
    and wfg: "well_formed gout"
  defines "ind \<equiv> ArgMax (Im2Col x ks st pd ca low) (iota_axes (length ks))"
  defines "G \<equiv> Reshape (gcol_of ind (prod_list ks) gout) (shape gout @ ks)"
  defines "T \<equiv> Transpose G (GetSwapSpatialDimensionsAxes (length ks))"
  defines "gx \<equiv> Col2Im T st pd (drop 2 (shape x))"
  shows "shape G = take 2 (shape x) @ out_dims (drop 2 (shape x)) ks st pd ca @ ks"
    and "shape T = take 2 (shape x) @ ks @ out_dims (drop 2 (shape x)) ks st pd ca"
    and "in_shape (take 2 (shape x)) b \<Longrightarrow> in_shape ks r
           \<Longrightarrow> in_shape (out_dims (drop 2 (shape x)) ks st pd ca) q
           \<Longrightarrow> elem_at T (b @ r @ q)
                 = (if ravel ks r = elem_at ind (b @ q) then elem_at gout (b @ q) else 0)"
    and "shape gx = shape x"
    and "in_shape (shape x) idx \<Longrightarrow>
           elem_at gx idx
             = sum_list (map (\<lambda>q. if window_coords st pd (unravel ks (elem_at ind (take 2 idx @ q))) q
                                        = map int (drop 2 idx)
                                     then elem_at gout (take 2 idx @ q) else 0)
                           (all_indices (out_dims (drop 2 (shape x)) ks st pd ca)))"
proof -
  let ?bc = "take 2 (shape x)" and ?outs = "out_dims (drop 2 (shape x)) ks st pd ca"
  let ?K = "prod_list ks" and ?n = "length ks"
  have rank: "length (shape x) = 2 + ?n" using valid by (simp add: valid_pool_def)
  have K: "0 < ?K" using valid by (simp add: valid_pool_def prod_list_pos)
  have l2: "length ?bc = 2" using rank by simp
  have shi: "shape ind = ?bc @ ?outs" unfolding ind_def using rank by (rule shape_ArgMax_Im2Col)
  have wfi: "length (elems ind) = GetTotalSize ind"
    unfolding ind_def
    using well_formed_ArgMax [of "Im2Col x ks st pd ca low" "iota_axes ?n"]
    by (simp add: well_formed_def GetTotalSize_def)
  have O: "GetTotalSize ind = prod_list (?bc @ ?outs)" by (simp only: GetTotalSize_def shi)
  have less_at: "\<And>i. in_shape (?bc @ ?outs) i \<Longrightarrow> elem_at ind i < ?K"
    unfolding ind_def using valid by (rule elem_at_ArgMax_less)
  have less: "\<And>Q. Q < GetTotalSize ind \<Longrightarrow> elems ind ! Q < ?K"
  proof -
    fix Q assume "Q < GetTotalSize ind"
    then have Q: "Q < prod_list (shape ind)" by (simp add: GetTotalSize_def)
    then have "in_shape (?bc @ ?outs) (unravel (shape ind) Q)"
      using in_shape_unravel [OF Q] by (simp only: shi)
    from less_at [OF this] show "elems ind ! Q < ?K" by (simp only: elems_nth_elem_at [OF Q])
  qed
  have less': "\<forall>Q < GetTotalSize ind. elems ind ! Q < ?K" using less by blast
  note gp = gcol_of_props [OF wfi K less', where gout = gout]
  show shG: "shape G = ?bc @ ?outs @ ks" by (simp add: G_def gsh)
  have Gel: "\<And>b q r. in_shape ?bc b \<Longrightarrow> in_shape ?outs q \<Longrightarrow> in_shape ks r \<Longrightarrow>
      elem_at G (b @ q @ r) = (if ravel ks r = elem_at ind (b @ q) then elem_at gout (b @ q) else 0)"
  proof -
    fix b q r assume b: "in_shape ?bc b" and q: "in_shape ?outs q" and r: "in_shape ks r"
    have lb: "length b = length ?bc" using b by (rule in_shape_length)
    have bq: "in_shape (?bc @ ?outs) (b @ q)" using b q lb by (simp only: in_shape_append)
    let ?Q = "ravel (?bc @ ?outs) (b @ q)"
    have Q: "?Q < GetTotalSize ind" unfolding O using bq by (rule ravel_less)
    have rr: "ravel ks r < ?K" using r by (rule ravel_less)
    have "elem_at G ((b @ q) @ r) = elems (gcol_of ind ?K gout) ! (?Q * ?K + ravel ks r)"
      unfolding G_def gsh using bq r by (rule elem_at_Reshape_append)
    also have "\<dots> = (if ravel ks r = elems ind ! ?Q then elems gout ! ?Q else 0)"
      using Q rr by (rule gp(3))
    also have "elems ind ! ?Q = elem_at ind (b @ q)" by (simp only: elem_at_def shi)
    also have "elems gout ! ?Q = elem_at gout (b @ q)" by (simp only: elem_at_def gsh)
    finally show "elem_at G (b @ q @ r)
        = (if ravel ks r = elem_at ind (b @ q) then elem_at gout (b @ q) else 0)" by simp
  qed
  have lo: "length ?outs = ?n" by simp
  note Ts = Transpose_swap [OF shG l2 lo refl]
  show shT: "shape T = ?bc @ ks @ ?outs" unfolding T_def by (rule Ts(1))
  have Tel: "\<And>b r q. in_shape ?bc b \<Longrightarrow> in_shape ks r \<Longrightarrow> in_shape ?outs q \<Longrightarrow>
      elem_at T (b @ r @ q) = (if ravel ks r = elem_at ind (b @ q) then elem_at gout (b @ q) else 0)"
    unfolding T_def by (simp only: Ts(3) Gel)
  show "in_shape ?bc b \<Longrightarrow> in_shape ks r \<Longrightarrow> in_shape ?outs q
           \<Longrightarrow> elem_at T (b @ r @ q)
                 = (if ravel ks r = elem_at ind (b @ q) then elem_at gout (b @ q) else 0)"
    by (rule Tel)
  have t2: "take 2 (shape T) = ?bc" and d2: "drop 2 (shape T) = ks @ ?outs"
    using l2 by (simp_all add: shT)
  show shgx: "shape gx = shape x" by (simp add: gx_def Col2Im_def Let_def t2)
  assume idx: "in_shape (shape x) idx"
  have ld: "length (drop 2 (shape x)) = ?n" using rank by simp
  have "in_shape (?bc @ drop 2 (shape x)) idx" using idx by simp
  then have b: "in_shape ?bc (take 2 idx)"
    using in_shape_split [of ?bc "drop 2 (shape x)" idx] l2 by simp
  let ?b = "take 2 idx" and ?y = "map int (drop 2 idx)"
  have "elem_at gx idx
      = sum_list (map (\<lambda>kq. if window_coords st pd (take ?n kq) (drop ?n kq) = ?y
                               then elem_at T (?b @ kq) else 0)
                    (all_indices (ks @ ?outs)))"
    using idx by (simp add: gx_def Col2Im_def Let_def t2 d2 rank elem_at_tabulate)
  also have "\<dots> = (\<Sum>kq \<in> {kq. in_shape (ks @ ?outs) kq}.
                       if window_coords st pd (take ?n kq) (drop ?n kq) = ?y
                       then elem_at T (?b @ kq) else 0)"
    by (rule sum_list_all_indices)
  also have "\<dots> = (\<Sum>r \<in> {r. in_shape ks r}. \<Sum>q \<in> {q. in_shape ?outs q}.
                       if window_coords st pd (take ?n (r @ q)) (drop ?n (r @ q)) = ?y
                       then elem_at T (?b @ r @ q) else 0)"
    by (rule sum_in_shape_append)
  also have "\<dots> = (\<Sum>r \<in> {r. in_shape ks r}. \<Sum>q \<in> {q. in_shape ?outs q}.
                       if window_coords st pd r q = ?y \<and> ravel ks r = elem_at ind (?b @ q)
                       then elem_at gout (?b @ q) else 0)"
  proof (intro sum.cong refl)
    fix r q assume "r \<in> {r. in_shape ks r}" "q \<in> {q. in_shape ?outs q}"
    then have r: "in_shape ks r" and q: "in_shape ?outs q" by simp_all
    have lr: "length r = ?n" using r by (rule in_shape_length)
    show "(if window_coords st pd (take ?n (r @ q)) (drop ?n (r @ q)) = ?y
           then elem_at T (?b @ r @ q) else 0)
        = (if window_coords st pd r q = ?y \<and> ravel ks r = elem_at ind (?b @ q)
           then elem_at gout (?b @ q) else 0)"
      using lr by (simp add: Tel [OF b r q])
  qed
  also have "\<dots> = (\<Sum>q \<in> {q. in_shape ?outs q}. \<Sum>r \<in> {r. in_shape ks r}.
                       if window_coords st pd r q = ?y \<and> ravel ks r = elem_at ind (?b @ q)
                       then elem_at gout (?b @ q) else 0)"
    by (rule sum.swap)
  also have "\<dots> = (\<Sum>q \<in> {q. in_shape ?outs q}.
                       if window_coords st pd (unravel ks (elem_at ind (?b @ q))) q = ?y
                       then elem_at gout (?b @ q) else 0)"
  proof (intro sum.cong refl)
    fix q assume "q \<in> {q. in_shape ?outs q}"
    then have q: "in_shape ?outs q" by simp
    have lb: "length ?b = length ?bc" using b by (rule in_shape_length)
    have "in_shape (?bc @ ?outs) (?b @ q)" using b q lb by (simp only: in_shape_append)
    then have "elem_at ind (?b @ q) < ?K" by (rule less_at)
    then show "(\<Sum>r \<in> {r. in_shape ks r}.
                 if window_coords st pd r q = ?y \<and> ravel ks r = elem_at ind (?b @ q)
                 then elem_at gout (?b @ q) else 0)
        = (if window_coords st pd (unravel ks (elem_at ind (?b @ q))) q = ?y
           then elem_at gout (?b @ q) else 0)"
      by (rule sum_delta_ravel)
  qed
  also have "\<dots> = sum_list (map (\<lambda>q. if window_coords st pd (unravel ks (elem_at ind (?b @ q))) q = ?y
                                          then elem_at gout (?b @ q) else 0)
                                (all_indices ?outs))"
    by (rule sum_list_all_indices [symmetric])
  finally show "elem_at gx idx
             = sum_list (map (\<lambda>q. if window_coords st pd (unravel ks (elem_at ind (take 2 idx @ q))) q
                                        = map int (drop 2 idx)
                                     then elem_at gout (take 2 idx @ q) else 0)
                           (all_indices ?outs))" .
qed

lemma argmax_at_window:
  fixes x :: "'a::linorder Array" and v :: 'a
  assumes valid: "valid_pool (shape x) ks st pd"
    and idx: "in_shape (take 2 (shape x) @ out_dims (drop 2 (shape x)) ks st pd ca) idx"
  defines "col \<equiv> Im2Col x ks st pd ca v"
  defines "i \<equiv> elem_at (ArgMax col (iota_axes (length ks))) idx"
  shows "i < prod_list ks"
    and "elem_at col (take 2 idx @ unravel ks i @ drop 2 idx)
           = elem_at (Max_axes col (iota_axes (length ks))) idx"
    and "in_shape ks r \<Longrightarrow> ravel ks r < i \<Longrightarrow>
           elem_at col (take 2 idx @ r @ drop 2 idx)
             < elem_at (Max_axes col (iota_axes (length ks))) idx"
proof -
  let ?outs = "out_dims (drop 2 (shape x)) ks st pd ca"
  let ?vs = "reduce_values col (iota_axes (length ks)) idx"
  let ?f = "\<lambda>r. elem_at col (take 2 idx @ r @ drop 2 idx)"
  have rank: "length (shape x) = 2 + length ks" using valid by (simp add: valid_pool_def)
  have pos: "0 < prod_list ks" using valid by (simp add: valid_pool_def prod_list_pos)
  have l2: "length (take 2 (shape x)) = 2" using rank by simp
  have len: "length idx = 2 + length ?outs"
    using idx l2 by (simp add: in_shape_length del: length_out_dims)
  have vs: "?vs = map ?f (all_indices ks)"
    unfolding col_def by (rule reduce_values_kernel [OF shape_Im2Col l2 len])
  have lvs: "length ?vs = prod_list ks" by (simp add: vs)
  then have ne: "?vs \<noteq> []" using pos by auto
  have i: "i = argmax_list ?vs"
    unfolding i_def col_def using rank idx by (rule elem_at_ArgMax_Im2Col)
  have out: "elem_at (Max_axes col (iota_axes (length ks))) idx = max_list ?vs"
    using idx l2 by (simp add: col_def Max_axes_def shape_Im2Col kept_shape_kernel elem_at_tabulate)
  show il: "i < prod_list ks" using argmax_list_props(1) [OF ne] by (simp only: i lvs)
  have nth: "\<And>j. j < prod_list ks \<Longrightarrow> ?vs ! j = ?f (unravel ks j)"
    by (simp add: vs nth_all_indices)
  have "?vs ! i = max_list ?vs" unfolding i using ne by (rule nth_argmax_list_eq_max_list)
  then show "elem_at col (take 2 idx @ unravel ks i @ drop 2 idx)
           = elem_at (Max_axes col (iota_axes (length ks))) idx"
    by (simp only: out nth [OF il])
  assume r: "in_shape ks r" and ri: "ravel ks r < i"
  have rl: "ravel ks r < prod_list ks" using r by (rule ravel_less)
  have "?vs ! ravel ks r < ?vs ! i"
    using argmax_list_props(3) [OF ne] ri unfolding i by blast
  also have "?vs ! i = max_list ?vs" unfolding i using ne by (rule nth_argmax_list_eq_max_list)
  finally show "elem_at col (take 2 idx @ r @ drop 2 idx)
             < elem_at (Max_axes col (iota_axes (length ks))) idx"
    by (simp only: out nth [OF rl] unravel_ravel [OF r])
qed

subsection \<open>Sums of gradients\<close>

lemma elems_eq_map_elem_at:
  "well_formed a \<Longrightarrow> elems a = map (elem_at a) (all_indices (shape a))"
  by (rule nth_equalityI) (simp_all add: well_formed_def nth_all_indices elem_at_unravel)

lemma sum_list_elems:
  fixes a :: "'a::comm_monoid_add Array"
  assumes "well_formed a"
  shows "sum_list (elems a) = (\<Sum>idx \<in> {idx. in_shape (shape a) idx}. elem_at a idx)"
  using elems_eq_map_elem_at [OF assms] sum_list_all_indices [of "elem_at a" "shape a"] by simp

lemma coords_in_bounds_map_int:
  "coords_in_bounds dims (map int y) \<longleftrightarrow> in_shape dims y"
  by (auto simp: coords_in_bounds_def in_shape_def list_all2_conv_all_nth)

lemma map_int_nat_coords:
  "coords_in_bounds dims C \<Longrightarrow> map int (map nat C) = C"
  by (auto simp: coords_in_bounds_def list_all2_conv_all_nth intro!: nth_equalityI)

lemma sum_delta_coords:
  fixes g :: "'a::comm_monoid_add"
  shows "(\<Sum>y \<in> {y. in_shape dims y}. if C = map int y then g else 0)
       = (if coords_in_bounds dims C then g else 0)"
proof (cases "coords_in_bounds dims C")
  case True
  have y0: "in_shape dims (map nat C)" using True by (rule coords_in_bounds_in_shape)
  have "\<And>y. (C = map int y) = (y = map nat C)"
  proof
    fix y assume "C = map int y"
    then show "y = map nat C" by (simp add: comp_def)
  next
    fix y assume "y = map nat C"
    then show "C = map int y" using map_int_nat_coords [OF True] by simp
  qed
  then have "(\<Sum>y \<in> {y. in_shape dims y}. if C = map int y then g else 0)
      = (\<Sum>y \<in> {y. in_shape dims y}. if y = map nat C then g else 0)"
    by simp
  also have "\<dots> = g" using y0 by (simp add: sum.delta')
  finally show ?thesis using True by simp
next
  case False
  have "\<And>y. in_shape dims y \<Longrightarrow> C \<noteq> map int y"
    using False coords_in_bounds_map_int by blast
  then have "(\<Sum>y \<in> {y. in_shape dims y}. if C = map int y then g else 0) = 0"
    by (intro sum.neutral) auto
  then show ?thesis using False by simp
qed

lemma GetConvOutDim_tiling:
  assumes k: "0 < k" and dv: "k dvd d"
  shows "GetConvOutDim d k k 0 ca = d div k"
proof -
  obtain c where d: "d = k * c" using dv by (auto simp: dvd_def)
  have "int d + 2 * int 0 - int k = int k * (int c - 1)" by (simp add: d algebra_simps)
  then have m: "int d + 2 * int 0 - int k = (int c - 1) * int k" by (simp add: mult.commute)
  have 1: "((int c - 1) * int k) div int k = int c - 1" using k by simp
  have 2: "((int c - 1) * int k) mod int k = 0" by simp
  have "GetConvOutDim d k k 0 ca = nat (int c - 1 + 1)"
    unfolding GetConvOutDim_def Let_def m 1 2 by simp
  then show ?thesis using k by (simp add: d)
qed

lemma tiling_window_inside:
  assumes k: "0 < k" and dv: "k dvd d" and q: "q < GetConvOutDim d k k 0 ca" and r: "r < k"
  shows "int q * int k + int r - int 0 < int d" and "0 \<le> int q * int k + int r - int (0::nat)"
proof -
  obtain c where d: "d = k * c" using dv by (auto simp: dvd_def)
  have "d div k = c" using k by (simp add: d)
  then have "GetConvOutDim d k k 0 ca = c" by (simp only: GetConvOutDim_tiling [OF k dv])
  then have "q < c" using q by simp
  then have "q + 1 \<le> c" by simp
  then have "(q + 1) * k \<le> c * k" by (rule mult_le_mono1)
  then have "q * k + r < k * c" using r by (simp add: algebra_simps)
  then have "int (q * k + r) < int d" by (simp only: d of_nat_less_iff)
  then show "int q * int k + int r - int 0 < int d" by simp
  show "0 \<le> int q * int k + int r - int (0::nat)" by simp
qed

lemma tiling_coords_in_bounds:
  assumes valid: "valid_pool sh ks st pd" and tl: "tiling (drop 2 sh) ks st pd"
    and r: "in_shape ks r" and q: "in_shape (out_dims (drop 2 sh) ks st pd ca) q"
  shows "coords_in_bounds (drop 2 sh) (window_coords st pd r q)"
proof -
  let ?dims = "drop 2 sh"
  have rank: "length sh = 2 + length ks" using valid by (simp add: valid_pool_def)
  have st: "st = ks" and pd: "pd = replicate (length ks) 0"
    and dv: "list_all2 (\<lambda>d k. k dvd d) ?dims ks"
    using tl by (simp_all add: tiling_def)
  have lr: "length r = length ks" using r by (rule in_shape_length)
  have ld: "length ?dims = length ks" using rank by simp
  show ?thesis
    unfolding coords_in_bounds_def list_all2_conv_all_nth
  proof (intro conjI allI impI)
    show "length (window_coords st pd r q) = length ?dims"
      by (simp only: window_coords_def length_map length_upt lr ld)
  next
    fix i assume "i < length (window_coords st pd r q)"
    then have i: "i < length ks" by (simp add: window_coords_def lr)
    have ki: "0 < ks ! i" using valid i by (metis valid_pool_def nth_mem not_gr_zero)
    have "i < length ?dims" using i by (simp only: ld)
    then have di: "ks ! i dvd ?dims ! i" by (rule list_all2_nthD [OF dv])
    have ri: "r ! i < ks ! i" using r i by (rule in_shape_nth)
    have "q ! i < out_dims ?dims ks st pd ca ! i" using q i by (intro in_shape_nth) simp_all
    then have qi: "q ! i < GetConvOutDim (?dims ! i) (ks ! i) (ks ! i) 0 ca"
      using i by (simp add: out_dims_def st pd)
    have w: "window_coords st pd r q ! i = int (q ! i) * int (ks ! i) + int (r ! i) - int 0"
      using i by (simp add: window_coords_def lr st pd)
    show "0 \<le> window_coords st pd r q ! i" unfolding w by (rule tiling_window_inside(2) [OF ki di qi ri])
    show "window_coords st pd r q ! i < int (?dims ! i)"
      unfolding w by (rule tiling_window_inside(1) [OF ki di qi ri])
  qed
qed

lemma well_formed_Col2Im [simp]: "well_formed (Col2Im col st pd out_size)"
  by (simp add: Col2Im_def Let_def)

lemma backward_sum:
  fixes x gout :: "'a::{linorder,comm_monoid_add} Array" and low :: 'a
  assumes valid: "valid_pool (shape x) ks st pd"
    and gsh: "shape gout = take 2 (shape x) @ out_dims (drop 2 (shape x)) ks st pd ca"
    and wfg: "well_formed gout"
  shows "sum_list (elems (Col2Im
            (Transpose (Reshape (gcol_of (ArgMax (Im2Col x ks st pd ca low) (iota_axes (length ks)))
                                   (prod_list ks) gout) (shape gout @ ks))
               (GetSwapSpatialDimensionsAxes (length ks)))
            st pd (drop 2 (shape x))))
       = (\<Sum>b \<in> {b. in_shape (take 2 (shape x)) b}.
            \<Sum>q \<in> {q. in_shape (out_dims (drop 2 (shape x)) ks st pd ca) q}.
              if coords_in_bounds (drop 2 (shape x))
                   (window_coords st pd
                      (unravel ks (elem_at (ArgMax (Im2Col x ks st pd ca low) (iota_axes (length ks)))
                                     (b @ q))) q)
              then elem_at gout (b @ q) else 0)"
proof -
  let ?bc = "take 2 (shape x)" and ?dims = "drop 2 (shape x)"
  let ?outs = "out_dims (drop 2 (shape x)) ks st pd ca"
  let ?ind = "ArgMax (Im2Col x ks st pd ca low) (iota_axes (length ks))"
  let ?gx = "Col2Im (Transpose (Reshape (gcol_of ?ind (prod_list ks) gout) (shape gout @ ks))
               (GetSwapSpatialDimensionsAxes (length ks))) st pd ?dims"
  let ?C = "\<lambda>b q. window_coords st pd (unravel ks (elem_at ?ind (b @ q))) q"
  note bc = backward_chain [OF valid gsh wfg, where low = low]
  have rank: "length (shape x) = 2 + length ks" using valid by (simp add: valid_pool_def)
  have l2: "length ?bc = 2" using rank by simp
  have shx: "shape x = ?bc @ ?dims" by simp
  have "sum_list (elems ?gx) = (\<Sum>idx \<in> {idx. in_shape (shape ?gx) idx}. elem_at ?gx idx)"
    by (rule sum_list_elems) simp
  also have "\<dots> = (\<Sum>idx \<in> {idx. in_shape (?bc @ ?dims) idx}. elem_at ?gx idx)"
    by (simp only: bc(4) append_take_drop_id)
  also have "\<dots> = (\<Sum>b \<in> {b. in_shape ?bc b}. \<Sum>y \<in> {y. in_shape ?dims y}. elem_at ?gx (b @ y))"
    by (rule sum_in_shape_append)
  also have "\<dots> = (\<Sum>b \<in> {b. in_shape ?bc b}. \<Sum>y \<in> {y. in_shape ?dims y}.
                      \<Sum>q \<in> {q. in_shape ?outs q}.
                        if ?C b q = map int y then elem_at gout (b @ q) else 0)"
  proof (intro sum.cong refl)
    fix b y assume "b \<in> {b. in_shape ?bc b}" "y \<in> {y. in_shape ?dims y}"
    then have b: "in_shape ?bc b" and y: "in_shape ?dims y" by simp_all
    have lb: "length b = 2" using b l2 by (simp add: in_shape_length)
    have "2 \<le> length (shape x)" using rank by simp
    then have "in_shape (shape x) (b @ y)" using b y by (rule in_shape_take_drop_2)
    have t: "take 2 (b @ y) = b" "drop 2 (b @ y) = y" using lb by simp_all
    from bc(5) [OF \<open>in_shape (shape x) (b @ y)\<close>, unfolded t]
    show "elem_at ?gx (b @ y)
        = (\<Sum>q \<in> {q. in_shape ?outs q}. if ?C b q = map int y then elem_at gout (b @ q) else 0)"
      by (simp only: sum_list_all_indices)
  qed
  also have "\<dots> = (\<Sum>b \<in> {b. in_shape ?bc b}. \<Sum>q \<in> {q. in_shape ?outs q}.
                      \<Sum>y \<in> {y. in_shape ?dims y}.
                        if ?C b q = map int y then elem_at gout (b @ q) else 0)"
    by (intro sum.cong refl sum.swap)
  also have "\<dots> = (\<Sum>b \<in> {b. in_shape ?bc b}. \<Sum>q \<in> {q. in_shape ?outs q}.
                      if coords_in_bounds ?dims (?C b q) then elem_at gout (b @ q) else 0)"
    by (simp only: sum_delta_coords)
  finally show ?thesis .
qed

subsection \<open>The gather of the double-backward pass\<close>

lemma gather_chain:
  fixes x ggx :: "'a::linorder Array" and low :: 'a
  assumes valid: "valid_pool (shape x) ks st pd"
    and gsh: "shape ggx = shape x"
    and idx: "in_shape (take 2 (shape x) @ out_dims (drop 2 (shape x)) ks st pd ca) idx"
  defines "ind \<equiv> ArgMax (Im2Col x ks st pd ca low) (iota_axes (length ks))"
  defines "gcol \<equiv> Im2Col ggx ks st pd ca low"
  defines "res \<equiv> Take (Reshape (Transpose gcol (GetSwapSpatialDimensionsAxes (length ks)))
                          [GetTotalSize gcol])
                   (Add ind (Reshape (Arange 0 (GetTotalSize ind * prod_list ks) (prod_list ks))
                               (shape ind)))"
  shows "shape res = take 2 (shape x) @ out_dims (drop 2 (shape x)) ks st pd ca"
    and "elem_at res idx = elem_at gcol (take 2 idx @ unravel ks (elem_at ind idx) @ drop 2 idx)"
proof -
  let ?bc = "take 2 (shape x)" and ?outs = "out_dims (drop 2 (shape x)) ks st pd ca"
  let ?K = "prod_list ks"
  let ?T = "Transpose gcol (GetSwapSpatialDimensionsAxes (length ks))"
  have rank: "length (shape x) = 2 + length ks" using valid by (simp add: valid_pool_def)
  have K: "0 < ?K" using valid by (simp add: valid_pool_def prod_list_pos)
  have lbc: "length ?bc = 2" using rank by simp
  have shi: "shape ind = ?bc @ ?outs" unfolding ind_def using rank by (rule shape_ArgMax_Im2Col)
  show "shape res = ?bc @ ?outs" by (simp add: res_def Take_def shi)
  define Q where "Q = ravel (shape ind) idx"
  define i where "i = elem_at ind idx"
  have Q: "Q < GetTotalSize ind"
    unfolding Q_def GetTotalSize_def using idx unfolding shi [symmetric] by (rule ravel_less)
  have li: "length (elems ind) = GetTotalSize ind"
    using well_formed_ArgMax [of "Im2Col x ks st pd ca low" "iota_axes (length ks)"]
    by (simp add: ind_def well_formed_def GetTotalSize_def)
  have i: "i < ?K" unfolding i_def ind_def using valid idx by (rule elem_at_ArgMax_less)
  have eQ: "elems ind ! Q = i" by (simp add: i_def Q_def elem_at_def)
  have pos: "elems (Add ind (Reshape (Arange 0 (GetTotalSize ind * ?K) ?K) (shape ind))) ! Q
           = i + Q * ?K"
    using Q li K by (simp add: elems_Add_nth Arange_steps eQ)
  have lpos: "length (elems (Add ind (Reshape (Arange 0 (GetTotalSize ind * ?K) ?K) (shape ind))))
           = GetTotalSize ind"
    using li K by (simp add: Add_def Arange_steps)
  have r1: "elem_at res idx = elems ?T ! (i + Q * ?K)"
    using Q lpos pos by (simp add: res_def Take_def elem_at_def Q_def)
  have shg: "shape gcol = ?bc @ ks @ ?outs"
    unfolding gcol_def by (simp add: shape_Im2Col gsh)
  have lo: "length ?outs = length ks" by simp
  have shT: "shape ?T = ?bc @ ?outs @ ks"
    using shg lbc refl lo by (rule Transpose_swap(1))
  have lidx: "length idx = length (?bc @ ?outs)" using idx by (rule in_shape_length)
  have sp: "in_shape ?bc (take 2 idx)" "in_shape ?outs (drop 2 idx)"
    using idx lbc by (simp_all add: in_shape_split)
  have u: "in_shape ks (unravel ks i)" using i by (rule in_shape_unravel)
  have "ravel ((?bc @ ?outs) @ ks) (idx @ unravel ks i) = Q * ?K + ravel ks (unravel ks i)"
    unfolding Q_def shi using lidx by (rule ravel_append)
  also have "\<dots> = i + Q * ?K" using i by (simp add: ravel_unravel)
  finally have rv: "ravel (shape ?T) (idx @ unravel ks i) = i + Q * ?K" by (simp add: shT)
  have "elems ?T ! (i + Q * ?K) = elem_at ?T (idx @ unravel ks i)"
    by (simp only: elem_at_def rv)
  also have "idx @ unravel ks i = take 2 idx @ drop 2 idx @ unravel ks i" by simp
  also have "elem_at ?T (take 2 idx @ drop 2 idx @ unravel ks i)
           = elem_at gcol (take 2 idx @ unravel ks i @ drop 2 idx)"
    using shg lbc refl lo sp(1) sp(2) u by (rule Transpose_swap(3))
  finally show "elem_at res idx = elem_at gcol (take 2 idx @ unravel ks (elem_at ind idx) @ drop 2 idx)"
    by (simp only: r1 i_def)
qed

section \<open>Max pooling: the forward pass\<close>

text \<open>
  Claim C1 (as amended). For a well-formed input \<open>x\<close> whose elements are not below the
  fill \<^verbatim>\<open>GetLowestOrInf(x.dtype())\<close>, \<^verbatim>\<open>Forward\<close> caches the window-extraction of \<open>x\<close>
  with that fill and the kernel axes \<open>2, ..., n + 1\<close>, returns the maximum of the windowed
  array along those axes, of shape \<open>(batch, channel, out_1..out_n)\<close>, and every position
  of the output whose window holds an in-bounds element is the maximum of the window's
  in-bounds elements. A position whose window lies in the padding altogether is the fill.
\<close>

theorem MaxPool_Forward_window_max:
  fixes x :: "'a::linorder Array"
  assumes valid: "valid_pool (shape x) (mp_kernel_size st) (mp_stride st) (mp_pad st)"
    and wf: "well_formed x"
    and low: "\<forall>u \<in> set (elems x). GetLowestOrInf dt \<le> u"
    and idx: "in_shape (shape (fst (MaxPool_Forward dt st x))) idx"
  shows "mp_col (snd (MaxPool_Forward dt st x))
           = Some (Im2Col x (mp_kernel_size st) (mp_stride st) (mp_pad st) (mp_cover_all st)
                     (GetLowestOrInf dt))
       \<and> mp_axes (snd (MaxPool_Forward dt st x)) = [2..<2 + length (mp_kernel_size st)]
       \<and> fst (MaxPool_Forward dt st x)
           = Max_axes (Im2Col x (mp_kernel_size st) (mp_stride st) (mp_pad st) (mp_cover_all st)
                         (GetLowestOrInf dt)) [2..<2 + length (mp_kernel_size st)]
       \<and> shape (fst (MaxPool_Forward dt st x))
           = take 2 (shape x)
               @ out_dims (drop 2 (shape x)) (mp_kernel_size st) (mp_stride st) (mp_pad st)
                   (mp_cover_all st)
       \<and> elem_at (fst (MaxPool_Forward dt st x)) idx
           = (if window_elems x (mp_kernel_size st) (mp_stride st) (mp_pad st) idx = []
              then GetLowestOrInf dt
              else Max (set (window_elems x (mp_kernel_size st) (mp_stride st) (mp_pad st) idx)))"
proof -
  have rank: "length (shape x) = 2 + length (mp_kernel_size st)"
    using valid by (simp add: valid_pool_def)
  have sh: "shape (fst (MaxPool_Forward dt st x))
       = take 2 (shape x)
           @ out_dims (drop 2 (shape x)) (mp_kernel_size st) (mp_stride st) (mp_pad st) (mp_cover_all st)"
    using rank by (rule shape_MaxPool_Forward)
  have el: "elem_at (Max_axes (Im2Col x (mp_kernel_size st) (mp_stride st) (mp_pad st) (mp_cover_all st)
                         (GetLowestOrInf dt)) (iota_axes (length (mp_kernel_size st)))) idx
           = (if window_elems x (mp_kernel_size st) (mp_stride st) (mp_pad st) idx = []
              then GetLowestOrInf dt
              else Max (set (window_elems x (mp_kernel_size st) (mp_stride st) (mp_pad st) idx)))"
    using valid wf low idx [unfolded sh] by (rule elem_at_Max_axes_Im2Col)
  have fst_eq: "fst (MaxPool_Forward dt st x)
           = Max_axes (Im2Col x (mp_kernel_size st) (mp_stride st) (mp_pad st) (mp_cover_all st)
                         (GetLowestOrInf dt)) (iota_axes (length (mp_kernel_size st)))"
    by (simp add: MaxPool_Forward_def Let_def)
  show ?thesis
    using sh el by (simp add: fst_eq) (simp add: MaxPool_Forward_def Let_def iota_axes_def)
qed

text \<open>The theorem at \<open>[1, 2, 3, 4]\<close>, kernel 2, stride 2, pad 1: the window of output
  position 1 holds the elements 2 and 3.\<close>

theorem MaxPool_Forward_window_max_witness:
  "valid_pool (shape x_1234) [2] [2] [1] \<and> well_formed x_1234
   \<and> list_all (\<lambda>u. GetLowestOrInf int8_dtype \<le> u) (elems x_1234)
   \<and> in_shape (shape (fst (MaxPool_Forward int8_dtype
                              (NativeMaxPoolForwardBackward [2] [2] [1] False) x_1234))) [0, 0, 1]
   \<and> window_elems x_1234 [2] [2] [1] [0, 0, 1] = [2, 3]
   \<and> elem_at (fst (MaxPool_Forward int8_dtype
                       (NativeMaxPoolForwardBackward [2] [2] [1] False) x_1234)) [0, 0, 1] = 3"
proof -
  let ?st = "NativeMaxPoolForwardBackward [2] [2] [1] False :: int MaxPool"
  have v: "valid_pool (shape x_1234) (mp_kernel_size ?st) (mp_stride ?st) (mp_pad ?st)"
    by code_simp
  have w: "well_formed x_1234" by code_simp
  have l: "\<forall>u \<in> set (elems x_1234). GetLowestOrInf int8_dtype \<le> u" by code_simp
  have i: "in_shape (shape (fst (MaxPool_Forward int8_dtype ?st x_1234))) [0, 0, 1]"
    by code_simp
  have e: "window_elems x_1234 [2] [2] [1] [0, 0, 1] = [2, 3]" by code_simp
  have r: "(if window_elems x_1234 (mp_kernel_size ?st) (mp_stride ?st) (mp_pad ?st) [0, 0, 1] = []
            then GetLowestOrInf int8_dtype
            else Max (set (window_elems x_1234 (mp_kernel_size ?st) (mp_stride ?st) (mp_pad ?st)
                             [0, 0, 1]))) = 3"
    by code_simp
  note t = MaxPool_Forward_window_max [OF v w l i, THEN conjunct2, THEN conjunct2,
      THEN conjunct2, THEN conjunct2]
  have el: "elem_at (fst (MaxPool_Forward int8_dtype ?st x_1234)) [0, 0, 1] = 3"
    by (rule trans [OF t r])
  have vv: "valid_pool (shape x_1234) [2] [2] [1]" by code_simp
  have ll: "list_all (\<lambda>u. GetLowestOrInf int8_dtype \<le> u) (elems x_1234)" by code_simp
  show ?thesis by (intro conjI) (rule vv w ll i e el)+
qed

text \<open>The claim as the specification states it, every output position being the maximum
  of in-bounds elements of its window, fails where \<open>cover_all\<close> adds a trailing window
  that lies in the padding: for \<open>[1, 2, 3, 4]\<close>, kernel 1, stride 2, pad 0 and \<open>cover_all\<close>
  the output is \<open>[1, 3, fill]\<close>.\<close>

theorem MaxPool_Forward_padded_window_counterexample:
  "valid_pool (shape x_1234) [1] [2] [0] \<and> well_formed x_1234
   \<and> fst (MaxPool_Forward int8_dtype (NativeMaxPoolForwardBackward [1] [2] [0] True) x_1234)
       = \<lparr>shape = [1, 1, 3], elems = [1, 3, - 128]\<rparr>
   \<and> in_shape (shape (fst (MaxPool_Forward int8_dtype
                              (NativeMaxPoolForwardBackward [1] [2] [0] True) x_1234))) [0, 0, 2]
   \<and> window_elems x_1234 [1] [2] [0] [0, 0, 2] = []
   \<and> elem_at (fst (MaxPool_Forward int8_dtype
                       (NativeMaxPoolForwardBackward [1] [2] [0] True) x_1234)) [0, 0, 2]
       = GetLowestOrInf int8_dtype"
  by (intro conjI) code_simp+

section \<open>Max pooling: the backward pass\<close>

text \<open>
  Claim C2. For a well-formed \<open>gout\<close> of the shape of the forward output, \<^verbatim>\<open>Backward\<close>
  returns. Its indices are the argmax of the cached windowed array along the kernel axes:
  flat offsets within the kernel axes, at which the windowed array holds the forward
  output, every earlier offset in scan order holding a strictly smaller element (first
  occurrence). The buffer \<^verbatim>\<open>gcol\<close> has \<open>out_total_size * kernel_total_size\<close> elements;
  its element at \<open>Q * kernel_total_size + r\<close> is the gradient of output position \<open>Q\<close>
  where \<open>r\<close> is the index of \<open>Q\<close>, and zero elsewhere. Reshaped to
  \<open>(batch, channel, out_1..out_n, k_1..k_n)\<close> and transposed by the axes
  \<open>0, 1, n+2, ..., 2n+1, 2, ..., n+1\<close> to \<open>(batch, channel, k_1..k_n, out_1..out_n)\<close>, it is
  scattered by \<^verbatim>\<open>Col2Im\<close> with the cached stride and pad into the input's shape: every
  input position receives the gradients of the output positions whose maximum was
  sampled there.
\<close>

theorem MaxPool_Backward_gradient:
  fixes x gout :: "'a::{linorder,comm_monoid_add} Array"
  assumes valid: "valid_pool (shape x) (mp_kernel_size st) (mp_stride st) (mp_pad st)"
    and gsh: "shape gout = shape (fst (MaxPool_Forward dt st x))"
    and wfg: "well_formed gout"
    and oidx: "in_shape (shape gout) oidx"
    and idx: "in_shape (shape x) idx"
    and Q: "Q < prod_list (shape gout)" and r: "r < prod_list (mp_kernel_size st)"
  shows "\<exists>gx st' indices col.
      MaxPool_Backward (snd (MaxPool_Forward dt st x)) gout = Inr (gx, st')
    \<and> mp_col (snd (MaxPool_Forward dt st x)) = Some col
    \<and> mp_indices st' = Some indices
    \<and> indices = ArgMax col [2..<2 + length (mp_kernel_size st)]
    \<and> elem_at indices oidx < prod_list (mp_kernel_size st)
    \<and> elem_at col (take 2 oidx @ unravel (mp_kernel_size st) (elem_at indices oidx) @ drop 2 oidx)
        = elem_at (fst (MaxPool_Forward dt st x)) oidx
    \<and> (\<forall>r'. in_shape (mp_kernel_size st) r' \<and> ravel (mp_kernel_size st) r' < elem_at indices oidx
            \<longrightarrow> elem_at col (take 2 oidx @ r' @ drop 2 oidx)
                  < elem_at (fst (MaxPool_Forward dt st x)) oidx)
    \<and> fold (*) (mp_kernel_size st) 1 = prod_list (mp_kernel_size st)
    \<and> GetTotalSize indices = prod_list (shape gout)
    \<and> length (elems (gcol_of indices (prod_list (mp_kernel_size st)) gout))
        = prod_list (shape gout) * prod_list (mp_kernel_size st)
    \<and> elems (gcol_of indices (prod_list (mp_kernel_size st)) gout)
          ! (Q * prod_list (mp_kernel_size st) + r)
        = (if r = elems indices ! Q then elems gout ! Q else 0)
    \<and> shape (Reshape (gcol_of indices (prod_list (mp_kernel_size st)) gout)
                (shape gout @ mp_kernel_size st))
        = take 2 (shape x)
            @ out_dims (drop 2 (shape x)) (mp_kernel_size st) (mp_stride st) (mp_pad st) (mp_cover_all st)
            @ mp_kernel_size st
    \<and> GetSwapSpatialDimensionsAxes (length (mp_kernel_size st))
        = [0, 1] @ [length (mp_kernel_size st) + 2..<2 * length (mp_kernel_size st) + 2]
            @ [2..<length (mp_kernel_size st) + 2]
    \<and> shape (Transpose (Reshape (gcol_of indices (prod_list (mp_kernel_size st)) gout)
                            (shape gout @ mp_kernel_size st))
                (GetSwapSpatialDimensionsAxes (length (mp_kernel_size st))))
        = take 2 (shape x) @ mp_kernel_size st
            @ out_dims (drop 2 (shape x)) (mp_kernel_size st) (mp_stride st) (mp_pad st) (mp_cover_all st)
    \<and> gx = Col2Im (Transpose (Reshape (gcol_of indices (prod_list (mp_kernel_size st)) gout)
                                  (shape gout @ mp_kernel_size st))
                      (GetSwapSpatialDimensionsAxes (length (mp_kernel_size st))))
             (mp_stride st) (mp_pad st) (drop 2 (shape x))
    \<and> shape gx = shape x
    \<and> elem_at gx idx
        = sum_list (map (\<lambda>q. if window_coords (mp_stride st) (mp_pad st)
                                   (unravel (mp_kernel_size st) (elem_at indices (take 2 idx @ q))) q
                                 = map int (drop 2 idx)
                               then elem_at gout (take 2 idx @ q) else 0)
                     (all_indices (out_dims (drop 2 (shape x)) (mp_kernel_size st) (mp_stride st)
                                     (mp_pad st) (mp_cover_all st))))"
proof -
  let ?ks = "mp_kernel_size st" and ?st = "mp_stride st" and ?pd = "mp_pad st"
  let ?ca = "mp_cover_all st" and ?low = "GetLowestOrInf dt"
  let ?n = "length ?ks" and ?K = "prod_list ?ks"
  let ?bc = "take 2 (shape x)" and ?outs = "out_dims (drop 2 (shape x)) ?ks ?st ?pd ?ca"
  let ?col = "Im2Col x ?ks ?st ?pd ?ca ?low"
  let ?ind = "ArgMax ?col (iota_axes ?n)"
  let ?G = "Reshape (gcol_of ?ind ?K gout) (shape gout @ ?ks)"
  let ?T = "Transpose ?G (GetSwapSpatialDimensionsAxes ?n)"
  let ?gx = "Col2Im ?T ?st ?pd (drop 2 (shape x))"
  let ?st1 = "snd (MaxPool_Forward dt st x)"
  let ?st2 = "?st1\<lparr>mp_indices := Some ?ind,
                   mp_offset := Some (Arange 0 (GetTotalSize ?ind * ?K) ?K)\<rparr>"
  have rank: "length (shape x) = 2 + ?n" using valid by (simp add: valid_pool_def)
  have K: "0 < ?K" using valid by (simp add: valid_pool_def prod_list_pos)
  have gsh': "shape gout = ?bc @ ?outs" using gsh shape_MaxPool_Forward [OF rank] by simp
  have fwd: "fst (MaxPool_Forward dt st x) = Max_axes ?col (iota_axes ?n)"
    by (simp add: MaxPool_Forward_def Let_def)
  have c: "mp_col ?st1 = Some ?col" and xx: "mp_x ?st1 = Some x"
    and ax: "mp_axes ?st1 = iota_axes ?n" and kk: "mp_kernel_size ?st1 = ?ks"
    and ss: "mp_stride ?st1 = ?st" and pp: "mp_pad ?st1 = ?pd"
    by (simp_all add: MaxPool_Forward_state)
  have shi: "shape ?ind = ?bc @ ?outs" using rank by (rule shape_ArgMax_Im2Col)
  have 1: "MaxPool_Backward ?st1 gout = Inr (?gx, ?st2)"
    using shi gsh' unfolding MaxPool_Backward_eq [OF c xx] ax kk ss pp by simp
  have 3: "mp_indices ?st2 = Some ?ind" by simp
  have 4: "?ind = ArgMax ?col [2..<2 + ?n]" by (simp only: iota_axes_def)
  have oidx': "in_shape (?bc @ ?outs) oidx" using oidx by (simp only: gsh')
  note am = argmax_at_window [OF valid oidx', where v = ?low]
  have 5: "elem_at ?ind oidx < ?K" by (rule am(1))
  have 6: "elem_at ?col (take 2 oidx @ unravel ?ks (elem_at ?ind oidx) @ drop 2 oidx)
        = elem_at (fst (MaxPool_Forward dt st x)) oidx"
    unfolding fwd by (rule am(2))
  have 7: "\<forall>r'. in_shape ?ks r' \<and> ravel ?ks r' < elem_at ?ind oidx
            \<longrightarrow> elem_at ?col (take 2 oidx @ r' @ drop 2 oidx)
                  < elem_at (fst (MaxPool_Forward dt st x)) oidx"
    unfolding fwd using am(3) by blast
  have 8: "fold (*) ?ks 1 = ?K" by (simp add: fold_mult_prod_list)
  have O: "GetTotalSize ?ind = prod_list (shape gout)" by (simp only: GetTotalSize_def shi gsh')
  have wfi: "length (elems ?ind) = GetTotalSize ?ind"
    using well_formed_ArgMax [of ?col "iota_axes ?n"] by (simp add: well_formed_def GetTotalSize_def)
  have less: "\<forall>q < GetTotalSize ?ind. elems ?ind ! q < ?K"
  proof (intro allI impI)
    fix q assume "q < GetTotalSize ?ind"
    then have q: "q < prod_list (shape ?ind)" by (simp add: GetTotalSize_def)
    have "in_shape (?bc @ ?outs) (unravel (shape ?ind) q)"
      using in_shape_unravel [OF q] by (simp only: shi)
    from elem_at_ArgMax_less [OF valid this]
    show "elems ?ind ! q < ?K" by (simp only: elems_nth_elem_at [OF q])
  qed
  note gp = gcol_of_props [OF wfi K less, where gout = gout]
  have 9: "length (elems (gcol_of ?ind ?K gout)) = prod_list (shape gout) * ?K"
    using gp(2) by (simp only: O)
  have QO: "Q < GetTotalSize ?ind" using Q by (simp only: O)
  have 10: "elems (gcol_of ?ind ?K gout) ! (Q * ?K + r)
        = (if r = elems ?ind ! Q then elems gout ! Q else 0)"
    using QO r by (rule gp(3))
  note bc = backward_chain [OF valid gsh' wfg, where low = ?low]
  have 11: "shape ?G = ?bc @ ?outs @ ?ks" by (rule bc(1))
  have 12: "GetSwapSpatialDimensionsAxes ?n = [0, 1] @ [?n + 2..<2 * ?n + 2] @ [2..<?n + 2]"
    by (rule GetSwapSpatialDimensionsAxes_eq)
  have 13: "shape ?T = ?bc @ ?ks @ ?outs" by (rule bc(2))
  have 15: "shape ?gx = shape x" by (rule bc(4))
  have 16: "elem_at ?gx idx
        = sum_list (map (\<lambda>q. if window_coords ?st ?pd (unravel ?ks (elem_at ?ind (take 2 idx @ q))) q
                                 = map int (drop 2 idx)
                               then elem_at gout (take 2 idx @ q) else 0)
                     (all_indices ?outs))"
    using idx by (rule bc(5))
  show ?thesis
    by (rule exI [of _ ?gx], rule exI [of _ ?st2], rule exI [of _ ?ind], rule exI [of _ ?col],
        intro conjI)
       (rule 1 c 3 4 5 6 7 8 O 9 10 11 12 13 refl 15 16)+
qed

text \<open>The theorem at \<open>[1, 2, 3, 4]\<close>, kernel 2, stride 2, pad 1 and the gradient
  \<open>[10, 20, 30]\<close>: the input gradient is \<open>[10, 0, 20, 30]\<close>; input position 2 holds the
  maximum of the window of output position 1.\<close>

theorem MaxPool_Backward_gradient_witness:
  "valid_pool (shape x_1234) (mp_kernel_size mp_221) (mp_stride mp_221) (mp_pad mp_221)
   \<and> shape gout_123 = shape (fst (MaxPool_Forward int8_dtype mp_221 x_1234))
   \<and> well_formed gout_123
   \<and> in_shape (shape gout_123) [0, 0, 1] \<and> in_shape (shape x_1234) [0, 0, 2]
   \<and> MaxPool_Backward (snd (MaxPool_Forward int8_dtype mp_221 x_1234)) gout_123
       = Inr (\<lparr>shape = [1, 1, 4], elems = [10, 0, 20, 30]\<rparr>, mp_221_done)
   \<and> elem_at \<lparr>shape = [1, 1, 4], elems = [10, 0, 20, 30 :: int]\<rparr> [0, 0, 2]
       = sum_list (map (\<lambda>q. if window_coords (mp_stride mp_221) (mp_pad mp_221)
                                   (unravel (mp_kernel_size mp_221)
                                      (elem_at \<lparr>shape = [1, 1, 3], elems = [1, 1, 0]\<rparr>
                                         (take 2 [0, 0, 2] @ q))) q
                                 = map int (drop 2 [0, 0, 2])
                               then elem_at gout_123 (take 2 [0, 0, 2] @ q) else 0)
                     (all_indices (out_dims (drop 2 (shape x_1234)) (mp_kernel_size mp_221)
                                     (mp_stride mp_221) (mp_pad mp_221) (mp_cover_all mp_221))))
   \<and> elem_at \<lparr>shape = [1, 1, 4], elems = [10, 0, 20, 30 :: int]\<rparr> [0, 0, 2] = 20"
proof -
  have v: "valid_pool (shape x_1234) (mp_kernel_size mp_221) (mp_stride mp_221) (mp_pad mp_221)"
    by code_simp
  have g: "shape gout_123 = shape (fst (MaxPool_Forward int8_dtype mp_221 x_1234))" by code_simp
  have w: "well_formed gout_123" by code_simp
  have o: "in_shape (shape gout_123) [0, 0, 1]" by code_simp
  have i: "in_shape (shape x_1234) [0, 0, 2]" by code_simp
  have q: "(1 :: nat) < prod_list (shape gout_123)" by code_simp
  have r: "(1 :: nat) < prod_list (mp_kernel_size mp_221)" by code_simp
  have bw: "MaxPool_Backward (snd (MaxPool_Forward int8_dtype mp_221 x_1234)) gout_123
       = Inr (\<lparr>shape = [1, 1, 4], elems = [10, 0, 20, 30]\<rparr>, mp_221_done)"
    by code_simp
  have mi: "mp_indices mp_221_done = Some \<lparr>shape = [1, 1, 3], elems = [1, 1, 0]\<rparr>"
    by (simp add: mp_221_done_def)
  from MaxPool_Backward_gradient [OF v g w o i q r]
  obtain gx st' indices where
    a: "MaxPool_Backward (snd (MaxPool_Forward int8_dtype mp_221 x_1234)) gout_123 = Inr (gx, st')"
    and b: "mp_indices st' = Some indices"
    and e: "elem_at gx [0, 0, 2]
       = sum_list (map (\<lambda>q. if window_coords (mp_stride mp_221) (mp_pad mp_221)
                                   (unravel (mp_kernel_size mp_221) (elem_at indices (take 2 [0, 0, 2] @ q))) q
                                 = map int (drop 2 [0, 0, 2])
                               then elem_at gout_123 (take 2 [0, 0, 2] @ q) else 0)
                     (all_indices (out_dims (drop 2 (shape x_1234)) (mp_kernel_size mp_221)
                                     (mp_stride mp_221) (mp_pad mp_221) (mp_cover_all mp_221))))"
    by (elim exE conjE) (rule that)
  have gx: "gx = \<lparr>shape = [1, 1, 4], elems = [10, 0, 20, 30]\<rparr>" and st': "st' = mp_221_done"
    using a bw by simp_all
  have ind: "indices = \<lparr>shape = [1, 1, 3], elems = [1, 1, 0]\<rparr>"
    using b mi unfolding st' by simp
  note e' = e [unfolded gx ind]
  have ev: "elem_at \<lparr>shape = [1, 1, 4], elems = [10, 0, 20, 30 :: int]\<rparr> [0, 0, 2] = 20"
    by code_simp
  show ?thesis by (intro conjI) (rule v g w o i bw e' ev)+
qed

text \<open>
  Claim C10. After \<^verbatim>\<open>Forward\<close>, a \<^verbatim>\<open>Backward\<close> that returns has cached the argmax
  indices and the offsets; every index lies in \<open>[0, kernel_total_size)\<close>, so the write
  position \<open>index + output_position * kernel_total_size\<close> of output position \<open>Q\<close> lies
  in that position's own slice \<open>[Q * kernel_total_size, (Q + 1) * kernel_total_size)\<close> of
  the buffer of \<open>out_total_size * kernel_total_size\<close> zeros, and two output positions never
  write to the same place.
\<close>

theorem MaxPool_Backward_scatter_in_slice:
  fixes x gout :: "'a::{linorder,monoid_add} Array"
  assumes valid: "valid_pool (shape x) (mp_kernel_size st) (mp_stride st) (mp_pad st)"
    and bw: "MaxPool_Backward (snd (MaxPool_Forward dt st x)) gout = Inr (gx, st')"
    and Q: "Q < prod_list (shape gout)"
  shows "\<exists>indices offset.
           mp_indices st' = Some indices \<and> mp_offset st' = Some offset
         \<and> GetTotalSize indices = prod_list (shape gout)
         \<and> elems indices ! Q < fold (*) (mp_kernel_size st) 1
         \<and> elems (Add (Reshape indices [GetTotalSize indices]) offset) ! Q
             = elems indices ! Q + Q * fold (*) (mp_kernel_size st) 1
         \<and> Q * fold (*) (mp_kernel_size st) 1
             \<le> elems (Add (Reshape indices [GetTotalSize indices]) offset) ! Q
         \<and> elems (Add (Reshape indices [GetTotalSize indices]) offset) ! Q
             < (Q + 1) * fold (*) (mp_kernel_size st) 1
         \<and> (Q + 1) * fold (*) (mp_kernel_size st) 1
             \<le> length (elems (Zeros [GetTotalSize indices * fold (*) (mp_kernel_size st) 1] :: 'a Array))
         \<and> (\<forall>Q' < GetTotalSize indices. Q' \<noteq> Q \<longrightarrow>
               elems (Add (Reshape indices [GetTotalSize indices]) offset) ! Q'
                 \<noteq> elems (Add (Reshape indices [GetTotalSize indices]) offset) ! Q)"
proof -
  let ?ks = "mp_kernel_size st" and ?st = "mp_stride st" and ?pd = "mp_pad st"
  let ?col = "Im2Col x ?ks ?st ?pd (mp_cover_all st) (GetLowestOrInf dt)"
  let ?ind = "ArgMax ?col (iota_axes (length ?ks))"
  let ?K = "prod_list ?ks"
  let ?O = "GetTotalSize ?ind"
  let ?off = "Arange 0 (?O * ?K) ?K"
  let ?pos = "Add (Reshape ?ind [?O]) ?off"
  let ?st1 = "snd (MaxPool_Forward dt st x)"
  have rank: "length (shape x) = 2 + length ?ks" using valid by (simp add: valid_pool_def)
  have K: "0 < ?K" using valid by (simp add: valid_pool_def prod_list_pos)
  have c: "mp_col ?st1 = Some ?col" and xx: "mp_x ?st1 = Some x"
    and ax: "mp_axes ?st1 = iota_axes (length ?ks)" and kk: "mp_kernel_size ?st1 = ?ks"
    by (simp_all add: MaxPool_Forward_state)
  note B = MaxPool_Backward_eq [OF c xx, of gout, unfolded ax kk]
  have sh: "shape ?ind = shape gout" using bw unfolding B by (auto split: if_splits)
  have st': "st' = ?st1\<lparr>mp_indices := Some ?ind, mp_offset := Some ?off\<rparr>"
    using bw sh unfolding B by simp
  have O: "?O = prod_list (shape gout)" by (simp add: GetTotalSize_def sh)
  have wf: "length (elems ?ind) = ?O"
    using well_formed_ArgMax [of ?col "iota_axes (length ?ks)"] by (simp add: well_formed_def GetTotalSize_def)
  have less: "\<And>q. q < ?O \<Longrightarrow> elems ?ind ! q < ?K"
  proof -
    fix q assume q: "q < ?O"
    then have q': "q < prod_list (shape ?ind)" by (simp add: GetTotalSize_def)
    have "in_shape (shape ?ind) (unravel (shape ?ind) q)" using q' by (rule in_shape_unravel)
    then have "in_shape (take 2 (shape x) @ out_dims (drop 2 (shape x)) ?ks ?st ?pd (mp_cover_all st))
                 (unravel (shape ?ind) q)"
      by (simp only: shape_ArgMax_Im2Col [OF rank])
    from elem_at_ArgMax_less [OF valid this]
    show "elems ?ind ! q < ?K" by (simp only: elems_nth_elem_at [OF q'])
  qed
  have QO: "Q < ?O" using Q O by simp
  have pos: "\<And>q. q < ?O \<Longrightarrow> elems ?pos ! q = elems ?ind ! q + q * ?K"
    using wf K by (rule scatter_positions(1))
  have 1: "elems ?ind ! Q < ?K" using QO by (rule less)
  note sb = slice_bounds [OF 1 QO]
  have len: "length (elems (Zeros [?O * ?K] :: 'a Array)) = ?O * ?K" by (simp add: Zeros_def)
  have dis: "\<forall>Q' < ?O. Q' \<noteq> Q \<longrightarrow> elems ?pos ! Q' \<noteq> elems ?pos ! Q"
  proof (intro allI impI notI)
    fix Q' assume Q': "Q' < ?O" and ne: "Q' \<noteq> Q" and e: "elems ?pos ! Q' = elems ?pos ! Q"
    have "elems ?ind ! Q' + Q' * ?K = elems ?ind ! Q + Q * ?K"
      using e pos [OF Q'] pos [OF QO] by simp
    from slice_disjoint [OF less [OF Q'] 1 this] ne show False by simp
  qed
  have f1: "mp_indices st' = Some ?ind" and f2: "mp_offset st' = Some ?off"
    by (simp_all add: st')
  have f6: "Q * ?K \<le> elems ?pos ! Q" unfolding pos [OF QO] by (rule sb(1))
  have f7: "elems ?pos ! Q < (Q + 1) * ?K" unfolding pos [OF QO] by (rule sb(2))
  have f8: "(Q + 1) * ?K \<le> length (elems (Zeros [?O * ?K] :: 'a Array))"
    unfolding len by (rule sb(3))
  have "\<exists>indices offset.
           mp_indices st' = Some indices \<and> mp_offset st' = Some offset
         \<and> GetTotalSize indices = prod_list (shape gout)
         \<and> elems indices ! Q < ?K
         \<and> elems (Add (Reshape indices [GetTotalSize indices]) offset) ! Q
             = elems indices ! Q + Q * ?K
         \<and> Q * ?K \<le> elems (Add (Reshape indices [GetTotalSize indices]) offset) ! Q
         \<and> elems (Add (Reshape indices [GetTotalSize indices]) offset) ! Q < (Q + 1) * ?K
         \<and> (Q + 1) * ?K
             \<le> length (elems (Zeros [GetTotalSize indices * ?K] :: 'a Array))
         \<and> (\<forall>Q' < GetTotalSize indices. Q' \<noteq> Q \<longrightarrow>
               elems (Add (Reshape indices [GetTotalSize indices]) offset) ! Q'
                 \<noteq> elems (Add (Reshape indices [GetTotalSize indices]) offset) ! Q)"
    by (rule exI [of _ ?ind], rule exI [of _ ?off], intro conjI)
       (rule f1 f2 O 1 pos [OF QO] f6 f7 f8 dis)+
  then show ?thesis by (simp only: fold_mult_prod_list mult_1)
qed

text \<open>The theorem at \<open>[1, 2, 3, 4]\<close>, kernel 2, stride 2, pad 1 and the gradient
  \<open>[10, 20, 30]\<close>: the indices are \<open>[1, 1, 0]\<close>, the write positions \<open>[1, 3, 4]\<close> in a
  buffer of six elements.\<close>

theorem MaxPool_Backward_scatter_in_slice_witness:
  "valid_pool (shape x_1234) (mp_kernel_size mp_221) (mp_stride mp_221) (mp_pad mp_221)
   \<and> MaxPool_Backward (snd (MaxPool_Forward int8_dtype mp_221 x_1234)) gout_123
       = Inr (\<lparr>shape = [1, 1, 4], elems = [10, 0, 20, 30]\<rparr>, mp_221_done)
   \<and> (1 :: nat) < prod_list (shape gout_123)
   \<and> elems (Add (Reshape \<lparr>shape = [1, 1, 3], elems = [1, 1, 0]\<rparr> [3])
                \<lparr>shape = [3], elems = [0, 2, 4]\<rparr>) = [1, 3, 4 :: nat]
   \<and> fold (*) (mp_kernel_size mp_221) 1 = 2
   \<and> (\<exists>indices offset.
           mp_indices mp_221_done = Some indices \<and> mp_offset mp_221_done = Some offset
         \<and> GetTotalSize indices = prod_list (shape gout_123)
         \<and> elems indices ! 1 < fold (*) (mp_kernel_size mp_221) 1
         \<and> elems (Add (Reshape indices [GetTotalSize indices]) offset) ! 1
             = elems indices ! 1 + 1 * fold (*) (mp_kernel_size mp_221) 1
         \<and> 1 * fold (*) (mp_kernel_size mp_221) 1
             \<le> elems (Add (Reshape indices [GetTotalSize indices]) offset) ! 1
         \<and> elems (Add (Reshape indices [GetTotalSize indices]) offset) ! 1
             < (1 + 1) * fold (*) (mp_kernel_size mp_221) 1
         \<and> (1 + 1) * fold (*) (mp_kernel_size mp_221) 1
             \<le> length (elems (Zeros [GetTotalSize indices * fold (*) (mp_kernel_size mp_221) 1] :: int Array))
         \<and> (\<forall>Q' < GetTotalSize indices. Q' \<noteq> 1 \<longrightarrow>
               elems (Add (Reshape indices [GetTotalSize indices]) offset) ! Q'
                 \<noteq> elems (Add (Reshape indices [GetTotalSize indices]) offset) ! 1))"
proof -
  have v: "valid_pool (shape x_1234) (mp_kernel_size mp_221) (mp_stride mp_221) (mp_pad mp_221)"
    by code_simp
  have bw: "MaxPool_Backward (snd (MaxPool_Forward int8_dtype mp_221 x_1234)) gout_123
       = Inr (\<lparr>shape = [1, 1, 4], elems = [10, 0, 20, 30]\<rparr>, mp_221_done)"
    by code_simp
  have q: "(1 :: nat) < prod_list (shape gout_123)" by code_simp
  have p: "elems (Add (Reshape \<lparr>shape = [1, 1, 3], elems = [1, 1, 0]\<rparr> [3])
                \<lparr>shape = [3], elems = [0, 2, 4]\<rparr>) = [1, 3, 4 :: nat]"
    by code_simp
  have k: "fold (*) (mp_kernel_size mp_221) 1 = (2 :: nat)" by code_simp
  show ?thesis
    by (intro conjI) (rule v bw q p k MaxPool_Backward_scatter_in_slice [OF v bw q])+
qed

text \<open>
  Claim C5. Where the windows tile the input without overlap (stride equal to the kernel
  size, no padding, kernel sizes dividing the input dimensions), \<^verbatim>\<open>Backward\<close> returns for
  every well-formed \<open>gout\<close> of the output's shape an input gradient whose elements sum
  to the sum of the elements of \<open>gout\<close>.
\<close>

theorem MaxPool_Backward_conserves_sum:
  fixes x gout :: "'a::{linorder,comm_monoid_add} Array"
  assumes valid: "valid_pool (shape x) (mp_kernel_size st) (mp_stride st) (mp_pad st)"
    and tl: "tiling (drop 2 (shape x)) (mp_kernel_size st) (mp_stride st) (mp_pad st)"
    and gsh: "shape gout = shape (fst (MaxPool_Forward dt st x))"
    and wfg: "well_formed gout"
  shows "\<exists>gx st'. MaxPool_Backward (snd (MaxPool_Forward dt st x)) gout = Inr (gx, st')
           \<and> shape gx = shape x
           \<and> sum_list (elems gx) = sum_list (elems gout)"
proof -
  let ?ks = "mp_kernel_size st" and ?st = "mp_stride st" and ?pd = "mp_pad st"
  let ?ca = "mp_cover_all st" and ?low = "GetLowestOrInf dt"
  let ?n = "length ?ks" and ?K = "prod_list ?ks"
  let ?bc = "take 2 (shape x)" and ?dims = "drop 2 (shape x)"
  let ?outs = "out_dims (drop 2 (shape x)) ?ks ?st ?pd ?ca"
  let ?col = "Im2Col x ?ks ?st ?pd ?ca ?low"
  let ?ind = "ArgMax ?col (iota_axes ?n)"
  let ?gx = "Col2Im (Transpose (Reshape (gcol_of ?ind ?K gout) (shape gout @ ?ks))
               (GetSwapSpatialDimensionsAxes ?n)) ?st ?pd ?dims"
  let ?st1 = "snd (MaxPool_Forward dt st x)"
  let ?st2 = "?st1\<lparr>mp_indices := Some ?ind,
                   mp_offset := Some (Arange 0 (GetTotalSize ?ind * ?K) ?K)\<rparr>"
  have rank: "length (shape x) = 2 + ?n" using valid by (simp add: valid_pool_def)
  have l2: "length ?bc = 2" using rank by simp
  have gsh': "shape gout = ?bc @ ?outs" using gsh shape_MaxPool_Forward [OF rank] by simp
  have c: "mp_col ?st1 = Some ?col" and xx: "mp_x ?st1 = Some x"
    and ax: "mp_axes ?st1 = iota_axes ?n" and kk: "mp_kernel_size ?st1 = ?ks"
    and ss: "mp_stride ?st1 = ?st" and pp: "mp_pad ?st1 = ?pd"
    by (simp_all add: MaxPool_Forward_state)
  have shi: "shape ?ind = ?bc @ ?outs" using rank by (rule shape_ArgMax_Im2Col)
  have 1: "MaxPool_Backward ?st1 gout = Inr (?gx, ?st2)"
    using shi gsh' unfolding MaxPool_Backward_eq [OF c xx] ax kk ss pp by simp
  have 2: "shape ?gx = shape x"
    by (rule backward_chain(4) [OF valid gsh' wfg])
  have "sum_list (elems ?gx)
      = (\<Sum>b \<in> {b. in_shape ?bc b}. \<Sum>q \<in> {q. in_shape ?outs q}.
              if coords_in_bounds ?dims
                   (window_coords ?st ?pd (unravel ?ks (elem_at ?ind (b @ q))) q)
              then elem_at gout (b @ q) else 0)"
    using valid gsh' wfg by (rule backward_sum)
  also have "\<dots> = (\<Sum>b \<in> {b. in_shape ?bc b}. \<Sum>q \<in> {q. in_shape ?outs q}. elem_at gout (b @ q))"
  proof (intro sum.cong refl)
    fix b q assume "b \<in> {b. in_shape ?bc b}" "q \<in> {q. in_shape ?outs q}"
    then have b: "in_shape ?bc b" and q: "in_shape ?outs q" by simp_all
    have lb: "length b = length ?bc" using b by (rule in_shape_length)
    have "in_shape (?bc @ ?outs) (b @ q)" using b q lb by (simp only: in_shape_append)
    then have "elem_at ?ind (b @ q) < ?K" using valid by (intro elem_at_ArgMax_less)
    then have "in_shape ?ks (unravel ?ks (elem_at ?ind (b @ q)))" by (rule in_shape_unravel)
    then have "coords_in_bounds ?dims (window_coords ?st ?pd (unravel ?ks (elem_at ?ind (b @ q))) q)"
      using q by (intro tiling_coords_in_bounds [OF valid tl])
    then show "(if coords_in_bounds ?dims
                   (window_coords ?st ?pd (unravel ?ks (elem_at ?ind (b @ q))) q)
              then elem_at gout (b @ q) else 0) = elem_at gout (b @ q)"
      by simp
  qed
  also have "\<dots> = (\<Sum>i \<in> {i. in_shape (?bc @ ?outs) i}. elem_at gout i)"
    by (rule sum_in_shape_append [symmetric])
  also have "\<dots> = sum_list (elems gout)"
    using sum_list_elems [OF wfg] by (simp only: gsh')
  finally have 3: "sum_list (elems ?gx) = sum_list (elems gout)" .
  show ?thesis
    by (rule exI [of _ ?gx], rule exI [of _ ?st2], intro conjI) (rule 1 2 3)+
qed

text \<open>The theorem at \<open>[1, 2, 3, 4]\<close>, kernel 2, stride 2, pad 0 and the gradient
  \<open>[10, 20]\<close>: the input gradient is \<open>[0, 10, 0, 20]\<close>.\<close>

theorem MaxPool_Backward_conserves_sum_witness:
  "valid_pool (shape x_1234) (mp_kernel_size mp_220) (mp_stride mp_220) (mp_pad mp_220)
   \<and> tiling (drop 2 (shape x_1234)) (mp_kernel_size mp_220) (mp_stride mp_220) (mp_pad mp_220)
   \<and> shape gout_12 = shape (fst (MaxPool_Forward int8_dtype mp_220 x_1234))
   \<and> well_formed gout_12
   \<and> map_sum id fst (MaxPool_Backward (snd (MaxPool_Forward int8_dtype mp_220 x_1234)) gout_12)
       = Inr \<lparr>shape = [1, 1, 4], elems = [0, 10, 0, 20]\<rparr>
   \<and> sum_list (elems \<lparr>shape = [1, 1, 4], elems = [0, 10, 0, 20 :: int]\<rparr>)
       = sum_list (elems gout_12)"
proof -
  have v: "valid_pool (shape x_1234) (mp_kernel_size mp_220) (mp_stride mp_220) (mp_pad mp_220)"
    by code_simp
  have t: "tiling (drop 2 (shape x_1234)) (mp_kernel_size mp_220) (mp_stride mp_220) (mp_pad mp_220)"
    by code_simp
  have g: "shape gout_12 = shape (fst (MaxPool_Forward int8_dtype mp_220 x_1234))" by code_simp
  have w: "well_formed gout_12" by code_simp
  have bw: "map_sum id fst (MaxPool_Backward (snd (MaxPool_Forward int8_dtype mp_220 x_1234)) gout_12)
       = Inr \<lparr>shape = [1, 1, 4], elems = [0, 10, 0, 20]\<rparr>"
    by code_simp
  from MaxPool_Backward_conserves_sum [OF v t g w]
  obtain gx st' where
    a: "MaxPool_Backward (snd (MaxPool_Forward int8_dtype mp_220 x_1234)) gout_12 = Inr (gx, st')"
    and s: "sum_list (elems gx) = sum_list (elems gout_12)"
    by (elim exE conjE) (rule that)
  have gx: "gx = \<lparr>shape = [1, 1, 4], elems = [0, 10, 0, 20]\<rparr>"
    using bw unfolding a by simp
  note s' = s [unfolded gx]
  show ?thesis by (intro conjI) (rule v t g w bw s')+
qed

section \<open>Max pooling: the double-backward pass\<close>

text \<open>
  Claim C3 (as amended). After \<^verbatim>\<open>Forward\<close> of \<open>x\<close> and a \<^verbatim>\<open>Backward\<close> that returned,
  \<^verbatim>\<open>DoubleBackward\<close> of a \<open>ggx\<close> of the shape of \<open>x\<close> returns: it window-extracts \<open>ggx\<close>
  with the kernel size, stride, pad, \<open>cover_all\<close> and fill of \<^verbatim>\<open>Forward\<close>, transposes and
  flattens it, and gathers at the cached \<open>indices + offset\<close>. The result has the shape of
  the forward output. At every output position, with \<open>ys\<close> the coordinate that the
  forward maximum was sampled at, the forward output is \<open>x\<close> at \<open>ys\<close> and the result is
  \<open>ggx\<close> at \<open>ys\<close> where \<open>ys\<close> is inside the input; where \<open>ys\<close> is in the padding, both
  are the fill.
\<close>

theorem MaxPool_DoubleBackward_gather:
  fixes x gout ggx :: "'a::{linorder,monoid_add} Array"
  assumes valid: "valid_pool (shape x) (mp_kernel_size st) (mp_stride st) (mp_pad st)"
    and bw: "MaxPool_Backward (snd (MaxPool_Forward dt st x)) gout = Inr (gx, st2)"
    and gsh: "shape ggx = shape x"
    and idx: "in_shape (shape (fst (MaxPool_Forward dt st x))) idx"
  shows "\<exists>res indices offset col ys.
      MaxPool_DoubleBackward dt st2 ggx = Inr res
    \<and> mp_indices st2 = Some indices
    \<and> mp_offset st2 = Some offset
    \<and> indices = ArgMax (Im2Col x (mp_kernel_size st) (mp_stride st) (mp_pad st) (mp_cover_all st)
                          (GetLowestOrInf dt)) [2..<2 + length (mp_kernel_size st)]
    \<and> col = Im2Col ggx (mp_kernel_size st) (mp_stride st) (mp_pad st) (mp_cover_all st)
               (GetLowestOrInf dt)
    \<and> res = Take (Reshape (Transpose col (GetSwapSpatialDimensionsAxes (length (mp_kernel_size st))))
                     [GetTotalSize col])
               (Add indices (Reshape offset (shape indices)))
    \<and> shape res = shape (fst (MaxPool_Forward dt st x))
    \<and> ys = window_coords (mp_stride st) (mp_pad st)
             (unravel (mp_kernel_size st) (elem_at indices idx)) (drop 2 idx)
    \<and> elem_at (fst (MaxPool_Forward dt st x)) idx
        = (if coords_in_bounds (drop 2 (shape x)) ys then elem_at x (take 2 idx @ map nat ys)
           else GetLowestOrInf dt)
    \<and> elem_at res idx
        = (if coords_in_bounds (drop 2 (shape x)) ys then elem_at ggx (take 2 idx @ map nat ys)
           else GetLowestOrInf dt)"
proof -
  let ?ks = "mp_kernel_size st" and ?st = "mp_stride st" and ?pd = "mp_pad st"
  let ?ca = "mp_cover_all st" and ?low = "GetLowestOrInf dt"
  let ?n = "length ?ks" and ?K = "prod_list ?ks"
  let ?bc = "take 2 (shape x)" and ?outs = "out_dims (drop 2 (shape x)) ?ks ?st ?pd ?ca"
  let ?col = "Im2Col x ?ks ?st ?pd ?ca ?low"
  let ?gcol = "Im2Col ggx ?ks ?st ?pd ?ca ?low"
  let ?ind = "ArgMax ?col (iota_axes ?n)"
  let ?off = "Arange 0 (GetTotalSize ?ind * ?K) ?K"
  let ?res = "Take (Reshape (Transpose ?gcol (GetSwapSpatialDimensionsAxes ?n)) [GetTotalSize ?gcol])
                (Add ?ind (Reshape ?off (shape ?ind)))"
  let ?ys = "window_coords ?st ?pd (unravel ?ks (elem_at ?ind idx)) (drop 2 idx)"
  let ?st1 = "snd (MaxPool_Forward dt st x)"
  let ?st2 = "?st1\<lparr>mp_indices := Some ?ind, mp_offset := Some ?off\<rparr>"
  have rank: "length (shape x) = 2 + ?n" using valid by (simp add: valid_pool_def)
  have rankg: "length (shape ggx) = 2 + ?n" using rank by (simp only: gsh)
  have fwd: "fst (MaxPool_Forward dt st x) = Max_axes ?col (iota_axes ?n)"
    by (simp add: MaxPool_Forward_def Let_def)
  have c: "mp_col ?st1 = Some ?col" and xx: "mp_x ?st1 = Some x"
    and ax: "mp_axes ?st1 = iota_axes ?n" and kk: "mp_kernel_size ?st1 = ?ks"
    and ss: "mp_stride ?st1 = ?st" and pp: "mp_pad ?st1 = ?pd" and cc: "mp_cover_all ?st1 = ?ca"
    by (simp_all add: MaxPool_Forward_state)
  have st2: "st2 = ?st2"
    using bw unfolding MaxPool_Backward_eq [OF c xx] ax kk ss pp
    by (simp split: if_splits)
  have 1: "MaxPool_DoubleBackward dt st2 ggx = Inr ?res"
    unfolding st2 by (simp add: MaxPool_DoubleBackward_def Let_def xx kk ss pp cc)
  have 2: "mp_indices st2 = Some ?ind" unfolding st2 by simp
  have 3: "mp_offset st2 = Some ?off" unfolding st2 by simp
  have 4: "?ind = ArgMax ?col [2..<2 + ?n]" by (simp only: iota_axes_def)
  have sho: "shape (fst (MaxPool_Forward dt st x)) = ?bc @ ?outs"
    using rank by (rule shape_MaxPool_Forward)
  have idx': "in_shape (?bc @ ?outs) idx" using idx by (simp only: sho)
  note gc = gather_chain [OF valid gsh idx', where low = ?low]
  have 7: "shape ?res = shape (fst (MaxPool_Forward dt st x))" by (simp only: sho gc(1))
  have lbc: "length ?bc = 2" using rank by simp
  have sp: "in_shape ?bc (take 2 idx)" "in_shape ?outs (drop 2 idx)"
    using idx' lbc by (simp_all add: in_shape_split)
  have i: "elem_at ?ind idx < ?K" using valid idx' by (rule elem_at_ArgMax_less)
  have u: "in_shape ?ks (unravel ?ks (elem_at ?ind idx))" using i by (rule in_shape_unravel)
  note am = argmax_at_window [OF valid idx', where v = ?low]
  have 9: "elem_at (fst (MaxPool_Forward dt st x)) idx
        = (if coords_in_bounds (drop 2 (shape x)) ?ys then elem_at x (take 2 idx @ map nat ?ys)
           else ?low)"
    unfolding fwd am(2) [symmetric] using rank sp(1) u sp(2) by (rule elem_at_Im2Col)
  have spg: "in_shape (take 2 (shape ggx)) (take 2 idx)"
    "in_shape (out_dims (drop 2 (shape ggx)) ?ks ?st ?pd ?ca) (drop 2 idx)"
    using sp by (simp_all only: gsh)
  have "elem_at ?gcol (take 2 idx @ unravel ?ks (elem_at ?ind idx) @ drop 2 idx)
        = (if coords_in_bounds (drop 2 (shape ggx)) ?ys then elem_at ggx (take 2 idx @ map nat ?ys)
           else ?low)"
    using rankg spg(1) u spg(2) by (rule elem_at_Im2Col)
  then have 10: "elem_at ?res idx
        = (if coords_in_bounds (drop 2 (shape x)) ?ys then elem_at ggx (take 2 idx @ map nat ?ys)
           else ?low)"
    by (simp only: gc(2) gsh)
  show ?thesis
    by (rule exI [of _ ?res], rule exI [of _ ?ind], rule exI [of _ ?off], rule exI [of _ ?gcol],
        rule exI [of _ ?ys], intro conjI)
       (rule 1 2 3 4 refl 7 9 10)+
qed

text \<open>The theorem at \<open>[1, 2, 3, 4]\<close>, kernel 2, stride 2, pad 1, after a \<^verbatim>\<open>Backward\<close> of
  \<open>[10, 20, 30]\<close>, and the second-order gradient \<open>[10, 20, 30, 40]\<close>: the forward maxima
  \<open>[1, 3, 4]\<close> were sampled at the coordinates 0, 2 and 3, and the result is
  \<open>[10, 30, 40]\<close>.\<close>

theorem MaxPool_DoubleBackward_gather_witness:
  "valid_pool (shape x_1234) (mp_kernel_size mp_221) (mp_stride mp_221) (mp_pad mp_221)
   \<and> MaxPool_Backward (snd (MaxPool_Forward int8_dtype mp_221 x_1234)) gout_123
       = Inr (\<lparr>shape = [1, 1, 4], elems = [10, 0, 20, 30]\<rparr>, mp_221_done)
   \<and> shape ggx_1234 = shape x_1234
   \<and> in_shape (shape (fst (MaxPool_Forward int8_dtype mp_221 x_1234))) [0, 0, 1]
   \<and> MaxPool_DoubleBackward int8_dtype mp_221_done ggx_1234
       = Inr \<lparr>shape = [1, 1, 3], elems = [10, 30, 40]\<rparr>
   \<and> (\<exists>res indices offset col ys.
          MaxPool_DoubleBackward int8_dtype mp_221_done ggx_1234 = Inr res
        \<and> mp_indices mp_221_done = Some indices
        \<and> mp_offset mp_221_done = Some offset
        \<and> indices = ArgMax (Im2Col x_1234 (mp_kernel_size mp_221) (mp_stride mp_221) (mp_pad mp_221)
                              (mp_cover_all mp_221) (GetLowestOrInf int8_dtype))
                        [2..<2 + length (mp_kernel_size mp_221)]
        \<and> col = Im2Col ggx_1234 (mp_kernel_size mp_221) (mp_stride mp_221) (mp_pad mp_221)
                   (mp_cover_all mp_221) (GetLowestOrInf int8_dtype)
        \<and> res = Take (Reshape (Transpose col (GetSwapSpatialDimensionsAxes (length (mp_kernel_size mp_221))))
                         [GetTotalSize col])
                   (Add indices (Reshape offset (shape indices)))
        \<and> shape res = shape (fst (MaxPool_Forward int8_dtype mp_221 x_1234))
        \<and> ys = window_coords (mp_stride mp_221) (mp_pad mp_221)
                 (unravel (mp_kernel_size mp_221) (elem_at indices [0, 0, 1])) (drop 2 [0, 0, 1])
        \<and> elem_at (fst (MaxPool_Forward int8_dtype mp_221 x_1234)) [0, 0, 1]
            = (if coords_in_bounds (drop 2 (shape x_1234)) ys
               then elem_at x_1234 (take 2 [0, 0, 1] @ map nat ys)
               else GetLowestOrInf int8_dtype)
        \<and> elem_at res [0, 0, 1]
            = (if coords_in_bounds (drop 2 (shape x_1234)) ys
               then elem_at ggx_1234 (take 2 [0, 0, 1] @ map nat ys)
               else GetLowestOrInf int8_dtype))"
proof -
  have v: "valid_pool (shape x_1234) (mp_kernel_size mp_221) (mp_stride mp_221) (mp_pad mp_221)"
    by code_simp
  have bw: "MaxPool_Backward (snd (MaxPool_Forward int8_dtype mp_221 x_1234)) gout_123
       = Inr (\<lparr>shape = [1, 1, 4], elems = [10, 0, 20, 30]\<rparr>, mp_221_done)"
    by code_simp
  have g: "shape ggx_1234 = shape x_1234" by code_simp
  have i: "in_shape (shape (fst (MaxPool_Forward int8_dtype mp_221 x_1234))) [0, 0, 1]"
    by code_simp
  have db: "MaxPool_DoubleBackward int8_dtype mp_221_done ggx_1234
       = Inr \<lparr>shape = [1, 1, 3], elems = [10, 30, 40]\<rparr>"
    by code_simp
  show ?thesis
    by (intro conjI) (rule v bw g i db MaxPool_DoubleBackward_gather [OF v bw g i])+
qed

text \<open>The claim as the specification states it, every position of the result being the
  value of \<open>ggx\<close> at the coordinate the forward maximum selected, fails where that
  coordinate is in the padding: for \<open>[1, 2, 3, 4]\<close>, kernel 1, stride 2, pad 0 and
  \<open>cover_all\<close> the third window samples coordinate 4 only, outside the input, and the
  result there is the fill \<open>- 128\<close>, which is no element of \<open>ggx\<close>.\<close>

theorem MaxPool_DoubleBackward_padded_window_counterexample:
  "valid_pool (shape x_1234) (mp_kernel_size mp_120c) (mp_stride mp_120c) (mp_pad mp_120c)
   \<and> MaxPool_Backward (snd (MaxPool_Forward int8_dtype mp_120c x_1234)) gout_123
       = Inr (\<lparr>shape = [1, 1, 4], elems = [10, 0, 20, 0]\<rparr>, mp_120c_done)
   \<and> shape ggx_1234 = shape x_1234
   \<and> in_shape (shape (fst (MaxPool_Forward int8_dtype mp_120c x_1234))) [0, 0, 2]
   \<and> MaxPool_DoubleBackward int8_dtype mp_120c_done ggx_1234
       = Inr \<lparr>shape = [1, 1, 3], elems = [10, 30, - 128]\<rparr>
   \<and> mp_indices mp_120c_done = Some \<lparr>shape = [1, 1, 3], elems = [0, 0, 0]\<rparr>
   \<and> window_coords (mp_stride mp_120c) (mp_pad mp_120c) (unravel (mp_kernel_size mp_120c) 0) [2] = [4]
   \<and> \<not> coords_in_bounds (drop 2 (shape ggx_1234)) [4]
   \<and> - 128 \<notin> set (elems ggx_1234)"
  by (intro conjI) code_simp+

section \<open>Max pooling: the cached state\<close>

text \<open>
  Claim C4 (as amended). \<^verbatim>\<open>Forward\<close> caches the windowed array, the kernel axes and the
  input; the indices and the offsets are computed and cached by \<^verbatim>\<open>Backward\<close>. After
  \<^verbatim>\<open>Forward\<close> of \<open>x\<close> and a \<^verbatim>\<open>Backward\<close> that returned, the state holds \<open>x\<close>, its windowed
  array, and the indices and offsets of that \<^verbatim>\<open>Forward\<close>; a further \<^verbatim>\<open>Backward\<close> behaves as
  the first one did, and \<^verbatim>\<open>DoubleBackward\<close>, which changes no member, returns the gather at
  those indices and offsets. A later \<^verbatim>\<open>Forward\<close> of \<open>y\<close> replaces the cached input, and
  \<^verbatim>\<open>Backward\<close> after it is that of an instance that saw \<open>y\<close> only, but the indices and
  offsets stay those of \<open>x\<close> until \<^verbatim>\<open>Backward\<close> is called again, and \<^verbatim>\<open>DoubleBackward\<close>
  returns what it returned before. On a new instance \<^verbatim>\<open>DoubleBackward\<close> after \<^verbatim>\<open>Forward\<close>
  alone reads a null array.
\<close>

theorem MaxPool_cached_state:
  fixes x y gout g2 ggx :: "'a::{linorder,monoid_add} Array"
  assumes bw: "MaxPool_Backward (snd (MaxPool_Forward dt st x)) gout = Inr (gx, st2)"
  shows "\<exists>indices offset.
      mp_x st2 = Some x
    \<and> mp_col st2 = Some (Im2Col x (mp_kernel_size st) (mp_stride st) (mp_pad st) (mp_cover_all st)
                          (GetLowestOrInf dt))
    \<and> mp_indices st2 = Some indices
    \<and> mp_offset st2 = Some offset
    \<and> indices = ArgMax (Im2Col x (mp_kernel_size st) (mp_stride st) (mp_pad st) (mp_cover_all st)
                          (GetLowestOrInf dt)) [2..<2 + length (mp_kernel_size st)]
    \<and> offset = Arange 0 (prod_list (shape gout) * fold (*) (mp_kernel_size st) 1)
                 (fold (*) (mp_kernel_size st) 1)
    \<and> MaxPool_Backward st2 g2 = MaxPool_Backward (snd (MaxPool_Forward dt st x)) g2
    \<and> MaxPool_DoubleBackward dt st2 ggx
        = Inr (Take (Reshape (Transpose (Im2Col ggx (mp_kernel_size st) (mp_stride st) (mp_pad st)
                                           (mp_cover_all st) (GetLowestOrInf dt))
                                (GetSwapSpatialDimensionsAxes (length (mp_kernel_size st))))
                       [GetTotalSize (Im2Col ggx (mp_kernel_size st) (mp_stride st) (mp_pad st)
                                        (mp_cover_all st) (GetLowestOrInf dt))])
                 (Add indices (Reshape offset (shape indices))))
    \<and> MaxPool_Backward (snd (MaxPool_Forward dt st2 y)) g2
        = MaxPool_Backward (snd (MaxPool_Forward dt st y)) g2
    \<and> mp_x (snd (MaxPool_Forward dt st2 y)) = Some y
    \<and> mp_indices (snd (MaxPool_Forward dt st2 y)) = Some indices
    \<and> mp_offset (snd (MaxPool_Forward dt st2 y)) = Some offset
    \<and> MaxPool_DoubleBackward dt (snd (MaxPool_Forward dt st2 y)) ggx
        = MaxPool_DoubleBackward dt st2 ggx
    \<and> MaxPool_DoubleBackward dt
          (snd (MaxPool_Forward dt (NativeMaxPoolForwardBackward kernel_size stride pad cover_all) y)) ggx
        = Inl NullArray"
proof -
  let ?ks = "mp_kernel_size st" and ?st = "mp_stride st" and ?pd = "mp_pad st"
  let ?ca = "mp_cover_all st" and ?low = "GetLowestOrInf dt"
  let ?n = "length ?ks" and ?K = "prod_list ?ks"
  let ?col = "Im2Col x ?ks ?st ?pd ?ca ?low"
  let ?gcol = "Im2Col ggx ?ks ?st ?pd ?ca ?low"
  let ?ind = "ArgMax ?col (iota_axes ?n)"
  let ?off = "Arange 0 (GetTotalSize ?ind * ?K) ?K"
  let ?st1 = "snd (MaxPool_Forward dt st x)"
  let ?st2 = "?st1\<lparr>mp_indices := Some ?ind, mp_offset := Some ?off\<rparr>"
  have c: "mp_col ?st1 = Some ?col" and xx: "mp_x ?st1 = Some x"
    and ax: "mp_axes ?st1 = iota_axes ?n" and kk: "mp_kernel_size ?st1 = ?ks"
    and ss: "mp_stride ?st1 = ?st" and pp: "mp_pad ?st1 = ?pd" and cc: "mp_cover_all ?st1 = ?ca"
    by (simp_all add: MaxPool_Forward_state)
  have st2: "st2 = ?st2" and sh: "shape ?ind = shape gout"
    using bw unfolding MaxPool_Backward_eq [OF c xx] ax kk ss pp
    by (simp_all split: if_splits)
  let ?ind' = "ArgMax ?col [2..<2 + ?n]"
  let ?off' = "Arange 0 (prod_list (shape gout) * fold (*) ?ks 1) (fold (*) ?ks 1)"
  have ind: "?ind = ?ind'" by (simp only: iota_axes_def)
  have off: "?off = ?off'" by (simp add: fold_mult_prod_list GetTotalSize_def sh)
  have 1: "mp_x st2 = Some x" unfolding st2 by (simp add: xx)
  have 2: "mp_col st2 = Some ?col" unfolding st2 by (simp add: c)
  have 3: "mp_indices st2 = Some ?ind'" unfolding st2 ind by simp
  have 4: "mp_offset st2 = Some ?off'" unfolding st2 off by simp
  have 5: "MaxPool_Backward st2 g2 = MaxPool_Backward ?st1 g2"
    unfolding st2 by (simp add: MaxPool_Backward_def MaxPool_Forward_state Let_def)
  have "MaxPool_DoubleBackward dt st2 ggx
        = Inr (Take (Reshape (Transpose ?gcol (GetSwapSpatialDimensionsAxes ?n)) [GetTotalSize ?gcol])
                 (Add ?ind (Reshape ?off (shape ?ind))))"
    unfolding st2 by (simp add: MaxPool_DoubleBackward_def Let_def xx kk ss pp cc)
  note d = this [unfolded off]
  have 6: "MaxPool_DoubleBackward dt st2 ggx
        = Inr (Take (Reshape (Transpose ?gcol (GetSwapSpatialDimensionsAxes ?n)) [GetTotalSize ?gcol])
                 (Add ?ind' (Reshape ?off' (shape ?ind'))))"
    using d by (simp only: ind)
  have 7: "MaxPool_Backward (snd (MaxPool_Forward dt st2 y)) g2
        = MaxPool_Backward (snd (MaxPool_Forward dt st y)) g2"
    unfolding st2 by (simp add: MaxPool_Backward_def MaxPool_Forward_state Let_def)
  have 8: "mp_x (snd (MaxPool_Forward dt st2 y)) = Some y"
    by (simp add: MaxPool_Forward_state)
  have 9: "mp_indices (snd (MaxPool_Forward dt st2 y)) = Some ?ind'"
    using 3 by (simp add: MaxPool_Forward_state)
  have 10: "mp_offset (snd (MaxPool_Forward dt st2 y)) = Some ?off'"
    using 4 by (simp add: MaxPool_Forward_state)
  have 11: "MaxPool_DoubleBackward dt (snd (MaxPool_Forward dt st2 y)) ggx
        = MaxPool_DoubleBackward dt st2 ggx"
    unfolding st2 by (simp add: MaxPool_DoubleBackward_def MaxPool_Forward_state Let_def)
  have 12: "MaxPool_DoubleBackward dt
          (snd (MaxPool_Forward dt (NativeMaxPoolForwardBackward kernel_size stride pad cover_all) y)) ggx
        = Inl NullArray"
    by (simp add: MaxPool_DoubleBackward_def MaxPool_Forward_state NativeMaxPoolForwardBackward_def)
  show ?thesis
    by (rule exI [of _ ?ind'], rule exI [of _ ?off'], intro conjI)
       (rule 1 2 3 4 refl 5 6 7 8 9 10 11 12)+
qed

text \<open>The theorem at \<open>[5, 1, 1, 5]\<close>, kernel 2, stride 2, pad 0, the gradient \<open>[10, 20]\<close>,
  the later input \<open>[1, 5, 5, 1]\<close> and the second-order gradient \<open>[10, 20, 30, 40]\<close>.\<close>

theorem MaxPool_cached_state_witness:
  "MaxPool_Backward (snd (MaxPool_Forward int8_dtype mp_220 x_5115)) gout_12
     = Inr (\<lparr>shape = [1, 1, 4], elems = [10, 0, 0, 20]\<rparr>, mp_220_done)
   \<and> MaxPool_DoubleBackward int8_dtype mp_220_done ggx_1234
       = Inr \<lparr>shape = [1, 1, 2], elems = [10, 40]\<rparr>
   \<and> (\<exists>indices offset.
          mp_x mp_220_done = Some x_5115
        \<and> mp_col mp_220_done
            = Some (Im2Col x_5115 (mp_kernel_size mp_220) (mp_stride mp_220) (mp_pad mp_220)
                      (mp_cover_all mp_220) (GetLowestOrInf int8_dtype))
        \<and> mp_indices mp_220_done = Some indices
        \<and> mp_offset mp_220_done = Some offset
        \<and> indices = ArgMax (Im2Col x_5115 (mp_kernel_size mp_220) (mp_stride mp_220) (mp_pad mp_220)
                              (mp_cover_all mp_220) (GetLowestOrInf int8_dtype))
                        [2..<2 + length (mp_kernel_size mp_220)]
        \<and> offset = Arange 0 (prod_list (shape gout_12) * fold (*) (mp_kernel_size mp_220) 1)
                     (fold (*) (mp_kernel_size mp_220) 1)
        \<and> MaxPool_Backward mp_220_done gout_12
            = MaxPool_Backward (snd (MaxPool_Forward int8_dtype mp_220 x_5115)) gout_12
        \<and> MaxPool_DoubleBackward int8_dtype mp_220_done ggx_1234
            = Inr (Take (Reshape (Transpose (Im2Col ggx_1234 (mp_kernel_size mp_220) (mp_stride mp_220)
                                               (mp_pad mp_220) (mp_cover_all mp_220)
                                               (GetLowestOrInf int8_dtype))
                                    (GetSwapSpatialDimensionsAxes (length (mp_kernel_size mp_220))))
                           [GetTotalSize (Im2Col ggx_1234 (mp_kernel_size mp_220) (mp_stride mp_220)
                                            (mp_pad mp_220) (mp_cover_all mp_220)
                                            (GetLowestOrInf int8_dtype))])
                     (Add indices (Reshape offset (shape indices))))
        \<and> MaxPool_Backward (snd (MaxPool_Forward int8_dtype mp_220_done x_1551)) gout_12
            = MaxPool_Backward (snd (MaxPool_Forward int8_dtype mp_220 x_1551)) gout_12
        \<and> mp_x (snd (MaxPool_Forward int8_dtype mp_220_done x_1551)) = Some x_1551
        \<and> mp_indices (snd (MaxPool_Forward int8_dtype mp_220_done x_1551)) = Some indices
        \<and> mp_offset (snd (MaxPool_Forward int8_dtype mp_220_done x_1551)) = Some offset
        \<and> MaxPool_DoubleBackward int8_dtype (snd (MaxPool_Forward int8_dtype mp_220_done x_1551)) ggx_1234
            = MaxPool_DoubleBackward int8_dtype mp_220_done ggx_1234
        \<and> MaxPool_DoubleBackward int8_dtype
              (snd (MaxPool_Forward int8_dtype (NativeMaxPoolForwardBackward [2] [2] [0] False) x_1551))
              ggx_1234
            = Inl NullArray)"
proof -
  have bw: "MaxPool_Backward (snd (MaxPool_Forward int8_dtype mp_220 x_5115)) gout_12
     = Inr (\<lparr>shape = [1, 1, 4], elems = [10, 0, 0, 20]\<rparr>, mp_220_done)"
    by code_simp
  have db: "MaxPool_DoubleBackward int8_dtype mp_220_done ggx_1234
       = Inr \<lparr>shape = [1, 1, 2], elems = [10, 40]\<rparr>"
    by code_simp
  show ?thesis
    by (intro conjI)
       (rule bw db MaxPool_cached_state [OF bw, where y = x_1551 and ?g2.0 = gout_12
              and ggx = ggx_1234 and kernel_size = "[2]" and stride = "[2]" and pad = "[0]"
              and cover_all = False])+
qed

text \<open>The claim as the specification states it fails in both readings of "even if
  \<^verbatim>\<open>Backward\<close> has not been called since that \<^verbatim>\<open>Forward\<close>". On a new instance,
  \<^verbatim>\<open>DoubleBackward\<close> after \<^verbatim>\<open>Forward\<close> alone reads the null \<^verbatim>\<open>indices_\<close>. After \<^verbatim>\<open>Forward\<close>
  of \<open>[5, 1, 1, 5]\<close>, \<^verbatim>\<open>Backward\<close> and \<^verbatim>\<open>Forward\<close> of \<open>[1, 5, 5, 1]\<close> (kernel 2, stride 2,
  pad 0), the cached indices are still \<open>[0, 1]\<close>, those of the first input, where the
  argmax of the second is \<open>[1, 0]\<close>: \<^verbatim>\<open>DoubleBackward\<close> of \<open>[10, 20, 30, 40]\<close> returns
  \<open>[10, 40]\<close>, and \<open>[20, 30]\<close> once \<^verbatim>\<open>Backward\<close> has been called again.\<close>

theorem MaxPool_DoubleBackward_stale_indices_counterexample:
  "MaxPool_DoubleBackward int8_dtype (snd (MaxPool_Forward int8_dtype mp_220 x_1551)) ggx_1234
     = Inl NullArray
   \<and> MaxPool_Backward (snd (MaxPool_Forward int8_dtype mp_220 x_5115)) gout_12
       = Inr (\<lparr>shape = [1, 1, 4], elems = [10, 0, 0, 20]\<rparr>, mp_220_done)
   \<and> fst (MaxPool_Forward int8_dtype mp_220_done x_1551) = \<lparr>shape = [1, 1, 2], elems = [5, 5]\<rparr>
   \<and> mp_x (snd (MaxPool_Forward int8_dtype mp_220_done x_1551)) = Some x_1551
   \<and> mp_indices (snd (MaxPool_Forward int8_dtype mp_220_done x_1551))
       = Some \<lparr>shape = [1, 1, 2], elems = [0, 1]\<rparr>
   \<and> ArgMax (Im2Col x_1551 [2] [2] [0] False (GetLowestOrInf int8_dtype)) [2]
       = \<lparr>shape = [1, 1, 2], elems = [1, 0]\<rparr>
   \<and> MaxPool_DoubleBackward int8_dtype (snd (MaxPool_Forward int8_dtype mp_220_done x_1551)) ggx_1234
       = Inr \<lparr>shape = [1, 1, 2], elems = [10, 40]\<rparr>
   \<and> map_sum id (\<lambda>p. MaxPool_DoubleBackward int8_dtype (snd p) ggx_1234)
         (MaxPool_Backward (snd (MaxPool_Forward int8_dtype mp_220_done x_1551)) gout_12)
       = Inr (Inr \<lparr>shape = [1, 1, 2], elems = [20, 30]\<rparr>)"
  by (intro conjI) code_simp+

section \<open>Average pooling: the gradient is not implemented\<close>

text \<open>
  Claim C8. For every instance and every gradient array \<open>gout\<close>, \<^verbatim>\<open>Backward\<close> of an
  average-pool instance ends in the not-implemented error and returns no array. The source
  throws before anything else; the members of the class are \<^verbatim>\<open>const\<close>, so no state is
  there to change.
\<close>

theorem AvgPool_Backward_not_implemented:
  "AvgPool_Backward ap gout = Inl NotImplementedError \<and> (\<forall>a. AvgPool_Backward ap gout \<noteq> Inr a)"
  by (simp add: AvgPool_Backward_def)

section \<open>Average pooling: the forward pass\<close>

text \<open>
  Claim C9. \<^verbatim>\<open>Forward\<close> of an average-pool instance ends in the fatal
  \<^verbatim>\<open>XCHAINER_NEVER_REACH()\<close> exactly when \<^verbatim>\<open>pad_mode_\<close> holds a value that is neither
  \<^verbatim>\<open>kZero\<close> nor \<^verbatim>\<open>kIgnore\<close>: such a value never falls into one of the two modes, and
  for the two modes the fatal branch is not reached.
\<close>

theorem AvgPool_Forward_NeverReach_iff:
  "AvgPool_Forward ap x = Inl NeverReach \<longleftrightarrow> (\<exists>v. ap_pad_mode ap = kOther v)"
  by (cases "ap_pad_mode ap")
     (auto simp: AvgPool_Forward_def Let_def GetPadModeIgnorePoolingWidths_def
           split: sum.splits option.splits)

theorem AvgPool_Forward_NeverReach_witness:
  "AvgPool_Forward \<lparr>ap_kernel_size = [2], ap_stride = [2], ap_pad = [1], ap_pad_mode = kOther 7\<rparr>
      xr_1234 = Inl NeverReach
   \<and> AvgPool_Forward \<lparr>ap_kernel_size = [2], ap_stride = [2], ap_pad = [1], ap_pad_mode = kZero\<rparr>
      xr_1234 \<noteq> Inl NeverReach
   \<and> AvgPool_Forward \<lparr>ap_kernel_size = [2], ap_stride = [2], ap_pad = [1], ap_pad_mode = kIgnore\<rparr>
      xr_1234 \<noteq> Inl NeverReach"
  by (simp add: AvgPool_Forward_NeverReach_iff)

text \<open>
  Claim C7. In zero mode, \<^verbatim>\<open>Forward\<close> returns the mean, along the kernel axes, of the
  window-extraction of the input with fill 0 and \<open>cover_all = false\<close>; every output
  position is the sum of its window's in-bounds elements (the zero fill adds nothing)
  divided by the nominal kernel volume \<open>kernel_size_1 * ... * kernel_size_n\<close>, whatever
  part of the window lies in the padding.
\<close>

theorem AvgPool_Forward_zero_mode:
  fixes x :: "'a::linordered_field Array"
  assumes valid: "valid_pool (shape x) (ap_kernel_size ap) (ap_stride ap) (ap_pad ap)"
    and mode: "ap_pad_mode ap = kZero"
    and idx: "in_shape (take 2 (shape x)
                 @ out_dims (drop 2 (shape x)) (ap_kernel_size ap) (ap_stride ap) (ap_pad ap) False) idx"
  shows "\<exists>out. AvgPool_Forward ap x = Inr out
       \<and> out = Mean (Im2Col x (ap_kernel_size ap) (ap_stride ap) (ap_pad ap) False 0)
                 [2..<2 + length (ap_kernel_size ap)]
       \<and> shape out = take 2 (shape x)
                 @ out_dims (drop 2 (shape x)) (ap_kernel_size ap) (ap_stride ap) (ap_pad ap) False
       \<and> elem_at out idx
           = sum_list (window_elems x (ap_kernel_size ap) (ap_stride ap) (ap_pad ap) idx)
               / of_nat (prod_list (ap_kernel_size ap))"
proof -
  let ?ks = "ap_kernel_size ap" and ?st = "ap_stride ap" and ?pd = "ap_pad ap"
  let ?col = "Im2Col x ?ks ?st ?pd False 0"
  let ?S = "Sum_axes ?col (iota_axes (length ?ks))"
  have rank: "length (shape x) = 2 + length ?ks" using valid by (simp add: valid_pool_def)
  have shS: "shape ?S = take 2 (shape x) @ out_dims (drop 2 (shape x)) ?ks ?st ?pd False"
    using rank by (rule shape_Sum_axes_Im2Col)
  have wf: "length (elems ?S) = prod_list (shape ?S)"
    using well_formed_Sum_axes [of ?col "iota_axes (length ?ks)"] by (simp add: well_formed_def)
  have "in_shape (shape ?S) idx" using idx by (simp only: shS)
  then have r: "ravel (shape ?S) idx < length (elems ?S)"
    unfolding wf by (rule ravel_less)
  have 1: "AvgPool_Forward ap x = Inr (Mean ?col (iota_axes (length ?ks)))"
    using mode by (simp add: AvgPool_Forward_def Let_def)
  have 2: "shape (Mean ?col (iota_axes (length ?ks)))
         = take 2 (shape x) @ out_dims (drop 2 (shape x)) ?ks ?st ?pd False"
    using shS by (simp add: Mean_def DivideAS_def)
  have 3: "elem_at (Mean ?col (iota_axes (length ?ks))) idx
         = sum_list (window_elems x ?ks ?st ?pd idx) / of_nat (prod_list ?ks)"
    unfolding Mean_def
    by (simp only: elem_at_DivideAS [OF r] CountItemsAlongAxes_Im2Col [OF rank]
          elem_at_Sum_axes_Im2Col [OF rank idx])
  show ?thesis using 1 2 3 by (simp add: iota_axes_def)
qed

text \<open>The theorem at \<open>[1, 2, 3, 4]\<close>, kernel 2, stride 2, pad 1, where the window of
  output position 0 holds the padding and the element 1: the output is 1/2.\<close>

theorem AvgPool_Forward_zero_mode_witness:
  "valid_pool (shape xr_1234) [2] [2] [1]
   \<and> in_shape (take 2 (shape xr_1234) @ out_dims (drop 2 (shape xr_1234)) [2] [2] [1] False) [0, 0, 0]
   \<and> AvgPool_Forward \<lparr>ap_kernel_size = [2], ap_stride = [2], ap_pad = [1], ap_pad_mode = kZero\<rparr>
        xr_1234 = Inr \<lparr>shape = [1, 1, 3], elems = [1 / 2, 5 / 2, 2]\<rparr>
   \<and> elem_at \<lparr>shape = [1, 1, 3], elems = [1 / 2, 5 / 2, 2 :: rat]\<rparr> [0, 0, 0]
        = sum_list (window_elems xr_1234 [2] [2] [1] [0, 0, 0]) / of_nat (prod_list [2])
   \<and> sum_list (window_elems xr_1234 [2] [2] [1] [0, 0, 0]) = 1"
proof -
  let ?ap = "\<lparr>ap_kernel_size = [2], ap_stride = [2], ap_pad = [1], ap_pad_mode = kZero\<rparr>"
  have v: "valid_pool (shape xr_1234) (ap_kernel_size ?ap) (ap_stride ?ap) (ap_pad ?ap)"
    by code_simp
  have m: "ap_pad_mode ?ap = kZero" by simp
  have i: "in_shape (take 2 (shape xr_1234)
             @ out_dims (drop 2 (shape xr_1234)) (ap_kernel_size ?ap) (ap_stride ?ap) (ap_pad ?ap) False)
            [0, 0, 0]"
    by code_simp
  have f: "AvgPool_Forward ?ap xr_1234 = Inr \<lparr>shape = [1, 1, 3], elems = [1 / 2, 5 / 2, 2]\<rparr>"
    by code_simp
  from AvgPool_Forward_zero_mode [OF v m i] f
  have e: "elem_at \<lparr>shape = [1, 1, 3], elems = [1 / 2, 5 / 2, 2 :: rat]\<rparr> [0, 0, 0]
        = sum_list (window_elems xr_1234 (ap_kernel_size ?ap) (ap_stride ?ap) (ap_pad ?ap) [0, 0, 0])
            / of_nat (prod_list (ap_kernel_size ?ap))"
    by auto
  have e': "elem_at \<lparr>shape = [1, 1, 3], elems = [1 / 2, 5 / 2, 2 :: rat]\<rparr> [0, 0, 0]
        = sum_list (window_elems xr_1234 [2] [2] [1] [0, 0, 0]) / of_nat (prod_list [2])"
    using e by simp
  have vv: "valid_pool (shape xr_1234) [2] [2] [1]" by code_simp
  have ii: "in_shape (take 2 (shape xr_1234) @ out_dims (drop 2 (shape xr_1234)) [2] [2] [1] False) [0, 0, 0]"
    by code_simp
  have s: "sum_list (window_elems xr_1234 [2] [2] [1] [0, 0, 0]) = 1" by code_simp
  show ?thesis by (intro conjI) (rule vv ii f e' s)+
qed




end
